theory Spec2Isabelle
  imports Complex_Main
begin

section \<open>JavaScript values\<close>

text \<open>
  The library is written in JavaScript (compiled from TypeScript), so every value that
  flows through it is dynamically typed.  \<open>jsval\<close> is the universe of values the two
  entry points inspect: primitives, arrays, plain objects (an association list of own
  properties, first binding wins), function references (an index into a function
  environment), error objects (constructor name and message) and generic iterables.
  Numbers are modelled by their mathematical value; \<open>NaN\<close> and the infinities are left out.

  A generic iterable is given by the behaviour of its iterator: the finite list of
  outcomes of successive \<open>next()\<close> calls, each either yielding a value or throwing one.
  Once that list is used up the iterator reports \<open>done\<close>.
\<close>

datatype 'a src_event = Yield 'a | Raise 'a

datatype jsval =
    JUndefined
  | JNull
  | JBool bool
  | JNum real
  | JStr string
  | JArr "jsval list"
  | JObj "(string \<times> jsval) list"
  | JFun nat
  | JErr string string
  | JIterable "jsval src_event list"

text \<open>The \<open>typeof\<close> operator.\<close>

fun typeof :: "jsval \<Rightarrow> string" where
  "typeof JUndefined = ''undefined''"
| "typeof JNull = ''object''"
| "typeof (JBool b) = ''boolean''"
| "typeof (JNum x) = ''number''"
| "typeof (JStr s) = ''string''"
| "typeof (JArr xs) = ''object''"
| "typeof (JObj fs) = ''object''"
| "typeof (JFun k) = ''function''"
| "typeof (JErr n m) = ''object''"
| "typeof (JIterable es) = ''object''"

text \<open>Truthiness, as tested by \<open>if (v)\<close>.\<close>

fun truthy :: "jsval \<Rightarrow> bool" where
  "truthy JUndefined = False"
| "truthy JNull = False"
| "truthy (JBool b) = b"
| "truthy (JNum x) = (x \<noteq> 0)"
| "truthy (JStr s) = (s \<noteq> [])"
| "truthy (JArr xs) = True"
| "truthy (JObj fs) = True"
| "truthy (JFun k) = True"
| "truthy (JErr n m) = True"
| "truthy (JIterable es) = True"

text \<open>
  \<open>name in v\<close> and \<open>v.name\<close> for the property names the code reads (\<open>kind\<close>, \<open>fn\<close>,
  \<open>initVal\<close>).  Only plain objects carry them; an absent property reads as \<open>undefined\<close>.
\<close>

fun has_prop :: "jsval \<Rightarrow> string \<Rightarrow> bool" where
  "has_prop (JObj fs) k = (map_of fs k \<noteq> None)"
| "has_prop (JErr n m) k = (k = ''name'' \<or> k = ''message'')"
| "has_prop v k = False"

fun get_prop :: "jsval \<Rightarrow> string \<Rightarrow> jsval" where
  "get_prop (JObj fs) k = (case map_of fs k of None \<Rightarrow> JUndefined | Some v \<Rightarrow> v)"
| "get_prop (JErr n m) k =
     (if k = ''name'' then JStr n else if k = ''message'' then JStr m else JUndefined)"
| "get_prop v k = JUndefined"

text \<open>\<open>v[Symbol.iterator]\<close> is present on arrays, strings and generic iterables.\<close>

fun has_iterator :: "jsval \<Rightarrow> bool" where
  "has_iterator (JArr xs) = True"
| "has_iterator (JStr s) = True"
| "has_iterator (JIterable es) = True"
| "has_iterator v = False"

text \<open>\<open>v[Symbol.iterator]()\<close>: the outcomes of the successive pulls of a fresh iterator.\<close>

fun iterate :: "jsval \<Rightarrow> jsval src_event list" where
  "iterate (JArr xs) = map Yield xs"
| "iterate (JStr s) = map (\<lambda>c. Yield (JStr [c])) s"
| "iterate (JIterable es) = es"
| "iterate v = []"

text \<open>Decimal rendering of a natural number, for the interpolated error message.\<close>

fun dec_string :: "nat \<Rightarrow> string" where
  "dec_string n =
     (if n < 10 then [''0123456789'' ! n]
      else dec_string (n div 10) @ [''0123456789'' ! (n mod 10)])"

declare dec_string.simps [simp del]

section \<open>The splitter: \<open>createTeeIterators\<close>\<close>

text \<open>
  The closure variables of one \<open>createTeeIterators\<close> call, shared by all its cursors.
  \<open>sourceIterator\<close> holds what the underlying iterator will still do; \<open>pulls\<close> counts the
  invocations of \<open>sourceIterator.next()\<close> (instrumentation, never read by the code);
  \<open>done_flags ! i\<close> is the \<open>done\<close> variable of the closure of cursor \<open>i\<close>.
\<close>

record tee_state =
  sourceIterator :: "jsval src_event list"
  pulls :: nat
  iteratorIndexPositions :: "int list"
  streamBuffer :: "jsval list"
  streamExhausted :: bool
  streamError :: jsval
  done_flags :: "bool list"

text \<open>An iterator result object \<open>{ value, done }\<close>.\<close>

datatype iter_result = IterResult (ir_value: jsval) (ir_done: bool)

text \<open>
  A call either throws (\<open>Inl\<close> the thrown value) or returns; the state it leaves behind
  is returned in both cases, since assignments made before a \<open>throw\<close> persist.
\<close>

definition source_next :: "tee_state \<Rightarrow> (jsval + iter_result) \<times> tee_state" where
  "source_next st =
     (case sourceIterator st of
        [] \<Rightarrow> (Inr (IterResult JUndefined True), st\<lparr>pulls := pulls st + 1\<rparr>)
      | Yield v # rest \<Rightarrow>
          (Inr (IterResult v False), st\<lparr>sourceIterator := rest, pulls := pulls st + 1\<rparr>)
      | Raise e # rest \<Rightarrow>
          (Inl e, st\<lparr>sourceIterator := rest, pulls := pulls st + 1\<rparr>))"

definition getNextStreamElement :: "tee_state \<Rightarrow> (jsval + iter_result) \<times> tee_state" where
  "getNextStreamElement st =
     (if streamExhausted st then (Inr (IterResult JUndefined True), st)
      else if truthy (streamError st) then (Inl (streamError st), st)
      else (case source_next st of
              (Inr result, st') \<Rightarrow>
                (Inr result, if ir_done result then st'\<lparr>streamExhausted := True\<rparr> else st')
            | (Inl e, st') \<Rightarrow> (Inl e, st'\<lparr>streamError := e\<rparr>)))"

text \<open>
  \<open>Math.min(...iteratorIndexPositions)\<close> is \<open>Infinity\<close> for an empty array, and then
  \<open>splice(0, Infinity)\<close> empties the buffer; \<open>splice(0, k)\<close> deletes nothing for \<open>k \<le> 0\<close>.
\<close>

definition cleanupStreamBuffer :: "tee_state \<Rightarrow> tee_state" where
  "cleanupStreamBuffer st =
     (case iteratorIndexPositions st of
        [] \<Rightarrow> st\<lparr>streamBuffer := []\<rparr>
      | p # ps \<Rightarrow>
          (let smallestComsumedIndex = fold min ps p;
               deletedElementsCount = smallestComsumedIndex
           in st\<lparr>streamBuffer := drop (nat deletedElementsCount) (streamBuffer st),
                 iteratorIndexPositions :=
                   map (\<lambda>q. q - deletedElementsCount) (iteratorIndexPositions st)\<rparr>))"

text \<open>The \<open>next()\<close> method of cursor \<open>index\<close>.  A read at a negative index is \<open>undefined\<close>.\<close>

definition cursor_next :: "nat \<Rightarrow> tee_state \<Rightarrow> (jsval + iter_result) \<times> tee_state" where
  "cursor_next index st =
     (if done_flags st ! index then (Inr (IterResult JUndefined True), st)
      else
        let p = iteratorIndexPositions st ! index in
        if p < int (length (streamBuffer st)) then
          (let v = (if 0 \<le> p then streamBuffer st ! nat p else JUndefined);
               st1 = st\<lparr>iteratorIndexPositions := (iteratorIndexPositions st)[index := p + 1]\<rparr>
           in (Inr (IterResult v False), cleanupStreamBuffer st1))
        else
          (case getNextStreamElement st of
             (Inl e, st') \<Rightarrow> (Inl e, st')
           | (Inr result, st') \<Rightarrow>
               if ir_done result then
                 (Inr (IterResult JUndefined True),
                  st'\<lparr>done_flags := (done_flags st')[index := True]\<rparr>)
               else
                 (let st2 = st'\<lparr>streamBuffer := streamBuffer st' @ [ir_value result],
                                 iteratorIndexPositions :=
                                   (iteratorIndexPositions st')[index := p + 1]\<rparr>
                  in (Inr (IterResult (ir_value result) False), cleanupStreamBuffer st2))))"

text \<open>The \<open>return(value)\<close> and \<open>throw(e)\<close> methods of cursor \<open>index\<close>.\<close>

definition cursor_return :: "nat \<Rightarrow> jsval \<Rightarrow> tee_state \<Rightarrow> (jsval + iter_result) \<times> tee_state" where
  "cursor_return index v st =
     (Inr (IterResult v True), st\<lparr>done_flags := (done_flags st)[index := True]\<rparr>)"

definition cursor_throw :: "nat \<Rightarrow> jsval \<Rightarrow> tee_state \<Rightarrow> (jsval + iter_result) \<times> tee_state" where
  "cursor_throw index e st =
     (Inl e, st\<lparr>done_flags := (done_flags st)[index := True]\<rparr>)"

text \<open>
  The state right after the closure variables are initialised, for \<open>count\<close> cursors over
  an iterator with the given behaviour.
\<close>

definition initial_state :: "jsval src_event list \<Rightarrow> nat \<Rightarrow> tee_state" where
  "initial_state evs count =
     \<lparr>sourceIterator = evs, pulls = 0, iteratorIndexPositions = replicate count 0,
      streamBuffer = [], streamExhausted = False, streamError = JNull,
      done_flags = replicate count False\<rparr>"

text \<open>
  \<open>createTeeIterators\<close> applied to an argument list.  On success it returns the array of
  cursors (cursor \<open>i\<close> is the handle \<open>i\<close>) with the shared state.  Reading
  \<open>[Symbol.iterator]\<close> from \<open>undefined\<close> or \<open>null\<close> is a \<open>TypeError\<close> of the language
  (its message is the engine's), and \<open>Array(n)\<close> is a \<open>RangeError\<close> unless \<open>0 \<le> n < 2^32\<close>.
\<close>

definition createTeeIterators :: "jsval list \<Rightarrow> jsval + (nat list \<times> tee_state)" where
  "createTeeIterators args =
     (if length args \<noteq> 2 then
        Inl (JErr ''Error'' (''Expected 2 arguments but recieved: '' @ dec_string (length args)))
      else
        let sourceIterable = args ! 0; count = args ! 1 in
        if sourceIterable = JUndefined \<or> sourceIterable = JNull then
          Inl (JErr ''TypeError'' ''Cannot read properties of undefined or null'')
        else if \<not> has_iterator sourceIterable then
          Inl (JErr ''Error'' ''Expected Arg 1 to be an iterator.'')
        else
          (case count of
             JNum c \<Rightarrow>
               (let n = \<lfloor>c\<rfloor> in
                if n < 0 \<or> 2 ^ 32 \<le> n then Inl (JErr ''RangeError'' ''Invalid array length'')
                else Inr ([0..<nat n], initial_state (iterate sourceIterable) (nat n)))
           | _ \<Rightarrow> Inl (JErr ''Error'' ''Expected Arg 2 to be an integer'')))"

text \<open>
  A caller drives the cursors by a sequence of method calls; \<open>exec\<close> performs them in
  order and collects what each call returned or threw.
\<close>

datatype cursor_op = Next nat | Return nat jsval | Throw nat jsval

fun op_index :: "cursor_op \<Rightarrow> nat" where
  "op_index (Next i) = i"
| "op_index (Return i v) = i"
| "op_index (Throw i e) = i"

fun cursor_step :: "cursor_op \<Rightarrow> tee_state \<Rightarrow> (jsval + iter_result) \<times> tee_state" where
  "cursor_step (Next i) st = cursor_next i st"
| "cursor_step (Return i v) st = cursor_return i v st"
| "cursor_step (Throw i e) st = cursor_throw i e st"

fun exec :: "cursor_op list \<Rightarrow> tee_state \<Rightarrow> (jsval + iter_result) list \<times> tee_state" where
  "exec [] st = ([], st)"
| "exec (c # cs) st =
     (case cursor_step c st of
        (r, st') \<Rightarrow> (case exec cs st' of (rs, st'') \<Rightarrow> (r # rs, st'')))"

text \<open>The values cursor \<open>i\<close> handed out by \<open>next()\<close> during a run, in order.\<close>

fun yields_of :: "nat \<Rightarrow> cursor_op list \<Rightarrow> (jsval + iter_result) list \<Rightarrow> jsval list" where
  "yields_of i (Next j # cs) (Inr (IterResult v False) # rs) =
     (if j = i then v # yields_of i cs rs else yields_of i cs rs)"
| "yields_of i (c # cs) (r # rs) = yields_of i cs rs"
| "yields_of i cs rs = []"


section \<open>The consumer runner: \<open>teeConsumers\<close>\<close>

text \<open>
  Consumer callbacks are function references interpreted by an environment: calling
  function \<open>k\<close> on an argument list throws (\<open>Inl\<close>) or returns (\<open>Inr\<close>).  A callback's
  outcome depends on its arguments only; what it does besides returning is recorded as
  the log of calls, in the order they were made.
\<close>

type_synonym fn_env = "nat \<Rightarrow> jsval list \<Rightarrow> jsval + jsval"

type_synonym call = "nat \<times> jsval list"

definition call_fn ::
  "fn_env \<Rightarrow> jsval \<Rightarrow> jsval list \<Rightarrow> call list \<Rightarrow> (jsval + jsval) \<times> call list" where
  "call_fn fenv f args calls =
     (case f of
        JFun k \<Rightarrow> (fenv k args, calls @ [(k, args)])
      | _ \<Rightarrow> (Inl (JErr ''TypeError'' ''fn.fn is not a function''), calls))"

text \<open>The validation loop: the first offending consumer decides the error.\<close>

fun validate_consumers :: "jsval list \<Rightarrow> jsval option" where
  "validate_consumers [] = None"
| "validate_consumers (consumer # rest) =
     (if typeof consumer \<noteq> ''object'' \<or> consumer = JNull then
        Some (JErr ''TypeError'' ''Each consumer must be an object'')
      else if \<not> has_prop consumer ''kind'' \<or> typeof (get_prop consumer ''kind'') \<noteq> ''string'' then
        Some (JErr ''TypeError'' ''Each consumer must have a string kind property'')
      else if typeof (get_prop consumer ''fn'') \<noteq> ''function'' then
        Some (JErr ''TypeError'' ''Each consumer must have a function fn property'')
      else validate_consumers rest)"

text \<open>The variables of one pass of the outer loop.\<close>

record loop_vars =
  mapResult :: "jsval list"
  reduceResult :: jsval
  filterResult :: "jsval list"
  elementIdx :: nat

text \<open>
  The body of the inner loop: the \<open>switch\<close> on \<open>fn.kind\<close> followed by \<open>elementIdx++\<close>.
  \<open>kind\<close> is a string here (validation has passed), so \<open>String(fn.kind)\<close> is that string.
\<close>

definition loop_body ::
  "fn_env \<Rightarrow> jsval \<Rightarrow> jsval \<Rightarrow> loop_vars \<Rightarrow> call list \<Rightarrow> (jsval + loop_vars) \<times> call list" where
  "loop_body fenv fn elem vars calls =
     (let kind = get_prop fn ''kind'';
          idx = JNum (real (elementIdx vars))
      in
      if kind = JStr ''forEach'' then
        (case call_fn fenv (get_prop fn ''fn'') [elem, idx] calls of
           (Inl e, calls') \<Rightarrow> (Inl e, calls')
         | (Inr _, calls') \<Rightarrow> (Inr (vars\<lparr>elementIdx := elementIdx vars + 1\<rparr>), calls'))
      else if kind = JStr ''map'' then
        (case call_fn fenv (get_prop fn ''fn'') [elem, idx] calls of
           (Inl e, calls') \<Rightarrow> (Inl e, calls')
         | (Inr val, calls') \<Rightarrow>
             (Inr (vars\<lparr>mapResult := mapResult vars @ [val],
                        elementIdx := elementIdx vars + 1\<rparr>), calls'))
      else if kind = JStr ''reduce'' then
        (if elementIdx vars = 0 \<and> reduceResult vars = JUndefined then
           (Inr (vars\<lparr>reduceResult := elem, elementIdx := elementIdx vars + 1\<rparr>), calls)
         else
           (case call_fn fenv (get_prop fn ''fn'') [reduceResult vars, elem, idx] calls of
              (Inl e, calls') \<Rightarrow> (Inl e, calls')
            | (Inr acc, calls') \<Rightarrow>
                (Inr (vars\<lparr>reduceResult := acc, elementIdx := elementIdx vars + 1\<rparr>), calls')))
      else if kind = JStr ''filter'' then
        (case call_fn fenv (get_prop fn ''fn'') [elem, idx] calls of
           (Inl e, calls') \<Rightarrow> (Inl e, calls')
         | (Inr keep, calls') \<Rightarrow>
             (Inr (vars\<lparr>filterResult :=
                          (if truthy keep then filterResult vars @ [elem] else filterResult vars),
                        elementIdx := elementIdx vars + 1\<rparr>), calls'))
      else
        (Inl (JErr ''Error''
               (''Unknown consumer kind: '' @ (case kind of JStr s \<Rightarrow> s | _ \<Rightarrow> []))), calls))"

text \<open>
  \<open>for (const elem of iterators[i]) body\<close>.  Cursor \<open>i\<close> exists only for \<open>i < count\<close>; the
  array of cursors has no entry beyond, and \<open>for ... of undefined\<close> is a \<open>TypeError\<close>.
  When the body throws, the loop closes the cursor through its \<open>return()\<close> method before
  the exception propagates; when \<open>next()\<close> itself throws, it does not.
\<close>

function for_of ::
  "nat \<Rightarrow> (jsval \<Rightarrow> 'a \<Rightarrow> call list \<Rightarrow> (jsval + 'a) \<times> call list) \<Rightarrow> 'a \<Rightarrow> tee_state \<Rightarrow> call list
     \<Rightarrow> (jsval + 'a) \<times> tee_state \<times> call list" where
  "for_of i body vars st calls =
     (if \<not> i < length (iteratorIndexPositions st) then
        (Inl (JErr ''TypeError'' ''undefined is not iterable''), st, calls)
      else
        (case cursor_next i st of
           (Inl e, st') \<Rightarrow> (Inl e, st', calls)
         | (Inr r, st') \<Rightarrow>
             if ir_done r then (Inr vars, st', calls)
             else
               (case body (ir_value r) vars calls of
                  (Inl e, calls') \<Rightarrow> (Inl e, snd (cursor_return i JUndefined st'), calls')
                | (Inr vars', calls') \<Rightarrow> for_of i body vars' st' calls')))"
  by pat_completeness auto
termination
proof (relation "measures [\<lambda>(i, body, vars, st, calls). length (sourceIterator st),
                          \<lambda>(i, body, vars, st, calls).
                             nat (int (length (streamBuffer st)) - iteratorIndexPositions st ! i)]")
  show "wf (measures [\<lambda>(i, body, vars, st, calls). length (sourceIterator st),
                      \<lambda>(i, body, vars, st, calls).
                         nat (int (length (streamBuffer st)) - iteratorIndexPositions st ! i)])"
    by simp
next
  fix i :: nat and body :: "jsval \<Rightarrow> 'a \<Rightarrow> call list \<Rightarrow> (jsval + 'a) \<times> call list"
    and vars :: 'a and st :: tee_state and calls :: "call list"
    and x st' r bres calls' vars'
  assume i: "\<not> \<not> i < length (iteratorIndexPositions st)"
    and x: "(x, st') = cursor_next i st" "x = Inr r"
    and nd: "\<not> ir_done r"
    and "(bres, calls') = body (ir_value r) vars calls" "bres = Inr vars'"
  let ?ps = "iteratorIndexPositions st"
  let ?p = "?ps ! i"
  let ?L = "length (streamBuffer st)"
  from x have step: "cursor_next i st = (Inr r, st')" by simp
  from i have i: "i < length (iteratorIndexPositions st)" by simp
  have ndone: "\<not> done_flags st ! i"
    using step nd by (auto simp: cursor_next_def)
  have "length (sourceIterator st') < length (sourceIterator st) \<or>
        (length (sourceIterator st') = length (sourceIterator st) \<and>
         nat (int (length (streamBuffer st')) - iteratorIndexPositions st' ! i) < nat (int ?L - ?p))"
  proof (cases "?p < int ?L")
    case True
    let ?ps1 = "?ps[i := ?p + 1]"
    let ?m = "Min (set ?ps1)"
    have ne: "?ps1 \<noteq> []" using i by auto
    then obtain q qs where qs: "?ps1 = q # qs" by (cases ?ps1) auto
    have fm: "fold min qs q = ?m" unfolding qs by (simp only: Min.set_eq_fold)
    have st': "st' = st\<lparr>streamBuffer := drop (nat ?m) (streamBuffer st),
                         iteratorIndexPositions := map (\<lambda>q. q - ?m) ?ps1\<rparr>"
      using step ndone True qs fm
      by (simp add: cursor_next_def cleanupStreamBuffer_def Let_def)
    have "?ps1 ! i \<in> set ?ps1" using i by (simp add: set_update_memI)
    then have mle: "?m \<le> ?p + 1" using i by (metis List.finite_set Min_le length_list_update nth_list_update_eq)
    have pos': "iteratorIndexPositions st' ! i = ?p + 1 - ?m" using i by (simp add: st')
    have len': "int (length (streamBuffer st')) = int ?L - int (min (nat ?m) ?L)"
      by (simp add: st' min_def)
    have "nat (int (length (streamBuffer st')) - iteratorIndexPositions st' ! i) < nat (int ?L - ?p)"
      unfolding pos' len' using mle True by (auto simp: min_def)
    moreover have "sourceIterator st' = sourceIterator st" by (simp add: st')
    ultimately show ?thesis by simp
  next
    case False
    then have "length (sourceIterator st') < length (sourceIterator st)"
      using step ndone nd
      by (auto simp: cursor_next_def getNextStreamElement_def source_next_def Let_def
                     cleanupStreamBuffer_def
               split: if_splits list.splits src_event.splits)
    then show ?thesis by simp
  qed
  then show "((i, body, vars', st', calls'), (i, body, vars, st, calls))
      \<in> measures [\<lambda>(i, body, vars, st, calls). length (sourceIterator st),
                   \<lambda>(i, body, vars, st, calls).
                      nat (int (length (streamBuffer st)) - iteratorIndexPositions st ! i)]"
    by auto
qed

declare for_of.simps [simp del]

text \<open>What the second \<open>switch\<close> stores into \<open>outResults[consumerIdx]\<close>; it has no default case.\<close>

definition store_result :: "jsval \<Rightarrow> loop_vars \<Rightarrow> nat \<Rightarrow> jsval list \<Rightarrow> jsval list" where
  "store_result fn vars consumerIdx outResults =
     (let kind = get_prop fn ''kind'' in
      if kind = JStr ''forEach'' then outResults[consumerIdx := JUndefined]
      else if kind = JStr ''reduce'' then outResults[consumerIdx := reduceResult vars]
      else if kind = JStr ''map'' then outResults[consumerIdx := JArr (mapResult vars)]
      else if kind = JStr ''filter'' then outResults[consumerIdx := JArr (filterResult vars)]
      else outResults)"

definition initial_vars :: "jsval \<Rightarrow> loop_vars" where
  "initial_vars fn =
     \<lparr>mapResult = [],
      reduceResult = (if get_prop fn ''kind'' = JStr ''reduce'' then get_prop fn ''initVal''
                      else JUndefined),
      filterResult = [], elementIdx = 0\<rparr>"

text \<open>
  The outer loop from \<open>consumerIdx\<close> on, over the consumers not yet processed.  The
  cursor \<open>iterators[consumerIdx]\<close> is the cursor with index \<open>consumerIdx\<close>.  An exception
  leaves the loop at once.
\<close>

fun consumers_loop ::
  "fn_env \<Rightarrow> jsval list \<Rightarrow> nat \<Rightarrow> jsval list \<Rightarrow> tee_state \<Rightarrow> call list
     \<Rightarrow> (jsval + jsval list) \<times> tee_state \<times> call list" where
  "consumers_loop fenv [] consumerIdx outResults st calls = (Inr outResults, st, calls)"
| "consumers_loop fenv (fn # rest) consumerIdx outResults st calls =
     (case for_of consumerIdx (loop_body fenv fn) (initial_vars fn) st calls of
        (Inl e, st', calls') \<Rightarrow> (Inl e, st', calls')
      | (Inr vars, st', calls') \<Rightarrow>
          consumers_loop fenv rest (consumerIdx + 1)
            (store_result fn vars consumerIdx outResults) st' calls')"

text \<open>
  \<open>teeConsumers\<close> called on receiver \<open>this\<close> with the given consumers.  Besides what the
  call throws or returns, the model reports how often the source iterator was pulled and
  the log of callback calls.
\<close>

definition teeConsumers ::
  "fn_env \<Rightarrow> jsval \<Rightarrow> jsval list \<Rightarrow> (jsval + jsval) \<times> nat \<times> call list" where
  "teeConsumers fenv this consumers =
     (case this of
        JArr xs \<Rightarrow>
          if consumers = [] then
            (Inl (JErr ''Error'' ''At least one consumer must be provided''), 0, [])
          else
            (case validate_consumers consumers of
               Some e \<Rightarrow> (Inl e, 0, [])
             | None \<Rightarrow>
                 (case createTeeIterators [this, JNum (real (length consumers))] of
                    Inl e \<Rightarrow> (Inl e, 0, [])
                  | Inr (iterators, st0) \<Rightarrow>
                      (case consumers_loop fenv consumers 0
                              (replicate (length consumers) (JNum 0)) st0 [] of
                         (Inl e, st, calls) \<Rightarrow> (Inl e, pulls st, calls)
                       | (Inr outResults, st, calls) \<Rightarrow> (Inr (JArr outResults), pulls st, calls))))
      | _ \<Rightarrow> (Inl (JErr ''TypeError'' ''teeConsumers must be called on an array''), 0, []))"

section \<open>Invariants and reference semantics\<close>

text \<open>
  The shape of a splitter state with \<open>N\<close> cursors: one read position and one flag per
  cursor, every read position within the buffer, and, when there is a cursor at all, some
  cursor at position 0 and some cursor at the end of the buffer.
\<close>

definition tee_wf :: "nat \<Rightarrow> tee_state \<Rightarrow> bool" where
  "tee_wf N st \<longleftrightarrow>
     length (iteratorIndexPositions st) = N \<and> length (done_flags st) = N \<and>
     (\<forall>i<N. 0 \<le> iteratorIndexPositions st ! i \<and>
             iteratorIndexPositions st ! i \<le> int (length (streamBuffer st))) \<and>
     (0 < N \<longrightarrow> (\<exists>i<N. iteratorIndexPositions st ! i = 0) \<and>
              (\<exists>i<N. iteratorIndexPositions st ! i = int (length (streamBuffer st))))"

text \<open>
  How the state relates to a source that yields the sequence \<open>S\<close> and never throws, given
  the number \<open>b\<close> of elements evicted so far: the buffer holds the elements of \<open>S\<close> from
  index \<open>b\<close> on, the source iterator has the rest still to yield, no error is recorded, and
  the pull counter is the number of elements pulled, plus one once the end has been seen.
\<close>

definition tee_content :: "jsval list \<Rightarrow> nat \<Rightarrow> tee_state \<Rightarrow> bool" where
  "tee_content S b st \<longleftrightarrow>
     b + length (streamBuffer st) \<le> length S \<and>
     (\<forall>k<length (streamBuffer st). streamBuffer st ! k = S ! (b + k)) \<and>
     sourceIterator st = map Yield (drop (b + length (streamBuffer st)) S) \<and>
     \<not> truthy (streamError st) \<and>
     pulls st = b + length (streamBuffer st) + (if streamExhausted st then 1 else 0) \<and>
     (streamExhausted st \<longrightarrow> b + length (streamBuffer st) = length S)"

text \<open>A cursor that \<open>next()\<close> has made terminal has seen the end of the source.\<close>

definition tee_inv :: "jsval list \<Rightarrow> nat \<Rightarrow> nat \<Rightarrow> tee_state \<Rightarrow> bool" where
  "tee_inv S N b st \<longleftrightarrow>
     tee_wf N st \<and> tee_content S b st \<and>
     (\<forall>i<N. done_flags st ! i \<longrightarrow>
        streamExhausted st \<and> iteratorIndexPositions st ! i = int (length (streamBuffer st)))"

text \<open>The number of elements of the source cursor \<open>i\<close> has consumed.\<close>

definition lpos :: "nat \<Rightarrow> tee_state \<Rightarrow> nat \<Rightarrow> nat" where
  "lpos b st i = b + nat (iteratorIndexPositions st ! i)"



text \<open>The read positions of the cursors that are not terminal.\<close>

definition live_positions :: "tee_state \<Rightarrow> int list" where
  "live_positions st =
     map fst (filter (\<lambda>(p, d). \<not> d) (zip (iteratorIndexPositions st) (done_flags st)))"

text \<open>Truncation of a fractional number toward zero, as the specification words it.\<close>

definition truncate_toward_zero :: "real \<Rightarrow> int" where
  "truncate_toward_zero c = (if 0 \<le> c then \<lfloor>c\<rfloor> else \<lceil>c\<rceil>)"


text \<open>
  Reference semantics of the runner: a loop body run over a list of elements from first
  to last, stopping at the first exception; and every descriptor run in turn over the
  whole source, with no splitter in between.
\<close>

fun run_body ::
  "(jsval \<Rightarrow> 'a \<Rightarrow> call list \<Rightarrow> (jsval + 'a) \<times> call list) \<Rightarrow> jsval list \<Rightarrow> 'a \<Rightarrow> call list
     \<Rightarrow> (jsval + 'a) \<times> call list" where
  "run_body body [] vars calls = (Inr vars, calls)"
| "run_body body (x # xs) vars calls =
     (case body x vars calls of
        (Inl e, calls') \<Rightarrow> (Inl e, calls')
      | (Inr vars', calls') \<Rightarrow> run_body body xs vars' calls')"

fun consumers_spec ::
  "fn_env \<Rightarrow> jsval list \<Rightarrow> nat \<Rightarrow> jsval list \<Rightarrow> jsval list \<Rightarrow> call list
     \<Rightarrow> (jsval + jsval list) \<times> call list" where
  "consumers_spec fenv [] consumerIdx outResults S calls = (Inr outResults, calls)"
| "consumers_spec fenv (fn # rest) consumerIdx outResults S calls =
     (case run_body (loop_body fenv fn) S (initial_vars fn) calls of
        (Inl e, calls') \<Rightarrow> (Inl e, calls')
      | (Inr vars, calls') \<Rightarrow>
          consumers_spec fenv rest (consumerIdx + 1)
            (store_result fn vars consumerIdx outResults) S calls')"

text \<open>
  A descriptor the validation loop rejects: not an object with a string \<open>kind\<close> and a
  function-valued \<open>fn\<close>.
\<close>

definition malformed :: "jsval \<Rightarrow> bool" where
  "malformed c \<longleftrightarrow>
     typeof c \<noteq> ''object'' \<or> c = JNull \<or> \<not> has_prop c ''kind'' \<or>
     typeof (get_prop c ''kind'') \<noteq> ''string'' \<or> typeof (get_prop c ''fn'') \<noteq> ''function''"

definition known_kind :: "jsval \<Rightarrow> bool" where
  "known_kind c \<longleftrightarrow>
     get_prop c ''kind'' = JStr ''map'' \<or> get_prop c ''kind'' = JStr ''filter'' \<or>
     get_prop c ''kind'' = JStr ''reduce'' \<or> get_prop c ''kind'' = JStr ''forEach''"

text \<open>The callback of a descriptor, and the callbacks that return on every argument list.\<close>

definition fn_of :: "jsval \<Rightarrow> nat" where
  "fn_of c = (case get_prop c ''fn'' of JFun f \<Rightarrow> f | _ \<Rightarrow> 0)"

definition never_throws :: "fn_env \<Rightarrow> nat \<Rightarrow> bool" where
  "never_throws fenv f \<longleftrightarrow> (\<forall>args. \<exists>v. fenv f args = Inr v)"

definition result_of :: "fn_env \<Rightarrow> nat \<Rightarrow> jsval list \<Rightarrow> jsval" where
  "result_of fenv f args = (case fenv f args of Inr v \<Rightarrow> v | Inl e \<Rightarrow> JUndefined)"

text \<open>
  The four operations in the words of the specification, over the elements from index
  \<open>k\<close> on: \<open>map\<close> collects \<open>fn(element, index)\<close>, \<open>filter\<close> keeps the elements whose
  predicate is truthy, \<open>reduce\<close> folds \<open>fn(accumulator, element, index)\<close>; and the calls
  each of them makes.
\<close>

fun map_from :: "fn_env \<Rightarrow> nat \<Rightarrow> nat \<Rightarrow> jsval list \<Rightarrow> jsval list" where
  "map_from fenv f k [] = []"
| "map_from fenv f k (x # xs) = result_of fenv f [x, JNum (real k)] # map_from fenv f (Suc k) xs"

fun filter_from :: "fn_env \<Rightarrow> nat \<Rightarrow> nat \<Rightarrow> jsval list \<Rightarrow> jsval list" where
  "filter_from fenv f k [] = []"
| "filter_from fenv f k (x # xs) =
     (if truthy (result_of fenv f [x, JNum (real k)]) then x # filter_from fenv f (Suc k) xs
      else filter_from fenv f (Suc k) xs)"

fun reduce_from :: "fn_env \<Rightarrow> nat \<Rightarrow> jsval \<Rightarrow> nat \<Rightarrow> jsval list \<Rightarrow> jsval" where
  "reduce_from fenv f acc k [] = acc"
| "reduce_from fenv f acc k (x # xs) =
     reduce_from fenv f (result_of fenv f [acc, x, JNum (real k)]) (Suc k) xs"

fun calls_from :: "nat \<Rightarrow> nat \<Rightarrow> jsval list \<Rightarrow> call list" where
  "calls_from f k [] = []"
| "calls_from f k (x # xs) = (f, [x, JNum (real k)]) # calls_from f (Suc k) xs"

fun reduce_calls :: "fn_env \<Rightarrow> nat \<Rightarrow> jsval \<Rightarrow> nat \<Rightarrow> jsval list \<Rightarrow> call list" where
  "reduce_calls fenv f acc k [] = []"
| "reduce_calls fenv f acc k (x # xs) =
     (f, [acc, x, JNum (real k)])
       # reduce_calls fenv f (result_of fenv f [acc, x, JNum (real k)]) (Suc k) xs"

text \<open>
  The result slot the specification prescribes for a descriptor over the source \<open>S\<close>.  A
  \<open>reduce\<close> whose \<open>initVal\<close> reads \<open>undefined\<close> has no initial value: it is seeded with the
  first element and folds from index 1; on an empty source it returns \<open>undefined\<close>.
\<close>

definition expected_result :: "fn_env \<Rightarrow> jsval list \<Rightarrow> jsval \<Rightarrow> jsval" where
  "expected_result fenv S c =
     (if get_prop c ''kind'' = JStr ''map'' then JArr (map_from fenv (fn_of c) 0 S)
      else if get_prop c ''kind'' = JStr ''filter'' then JArr (filter_from fenv (fn_of c) 0 S)
      else if get_prop c ''kind'' = JStr ''reduce'' then
        (if get_prop c ''initVal'' = JUndefined then
           (case S of [] \<Rightarrow> JUndefined | x # xs \<Rightarrow> reduce_from fenv (fn_of c) x 1 xs)
         else reduce_from fenv (fn_of c) (get_prop c ''initVal'') 0 S)
      else JUndefined)"

definition expected_calls :: "fn_env \<Rightarrow> jsval list \<Rightarrow> jsval \<Rightarrow> call list" where
  "expected_calls fenv S c =
     (if get_prop c ''kind'' = JStr ''reduce'' then
        (if get_prop c ''initVal'' = JUndefined then
           (case S of [] \<Rightarrow> [] | x # xs \<Rightarrow> reduce_calls fenv (fn_of c) x 1 xs)
         else reduce_calls fenv (fn_of c) (get_prop c ''initVal'') 0 S)
      else calls_from (fn_of c) 0 S)"

text \<open>
  The callbacks of the examples in the specification and the test suite, for numeric
  elements: \<open>x * 2\<close>, \<open>x % 2 === 0\<close>, \<open>acc + x\<close>, a no-op and \<open>acc * x\<close>.  \<open>js_rem\<close> is the
  remainder of the truncated division; a missing argument reads \<open>undefined\<close>.
\<close>

definition js_rem :: "real \<Rightarrow> real \<Rightarrow> real" where
  "js_rem x y = x - y * of_int (if 0 \<le> x / y then \<lfloor>x / y\<rfloor> else \<lceil>x / y\<rceil>)"

definition arg :: "jsval list \<Rightarrow> nat \<Rightarrow> jsval" where
  "arg args n = (if n < length args then args ! n else JUndefined)"

definition num_op :: "(real \<Rightarrow> real \<Rightarrow> jsval) \<Rightarrow> jsval \<Rightarrow> jsval \<Rightarrow> jsval" where
  "num_op f a b =
     (case a of
        JNum x \<Rightarrow> (case b of JNum y \<Rightarrow> f x y | _ \<Rightarrow> JUndefined)
      | _ \<Rightarrow> JUndefined)"

definition example_fns :: fn_env where
  "example_fns k args =
     (if k = 0 then Inr (num_op (\<lambda>x y. JNum (x * y)) (arg args 0) (JNum 2))
      else if k = 1 then Inr (num_op (\<lambda>x y. JBool (js_rem x y = 0)) (arg args 0) (JNum 2))
      else if k = 2 then Inr (num_op (\<lambda>x y. JNum (x + y)) (arg args 0) (arg args 1))
      else if k = 3 then Inr JUndefined
      else Inr (num_op (\<lambda>x y. JNum (x * y)) (arg args 0) (arg args 1)))"


section \<open>Verification\<close>

lemma cleanup_nonempty:
  assumes "iteratorIndexPositions st \<noteq> []"
  shows "cleanupStreamBuffer st =
     st\<lparr>streamBuffer := drop (nat (Min (set (iteratorIndexPositions st)))) (streamBuffer st),
        iteratorIndexPositions :=
          map (\<lambda>q. q - Min (set (iteratorIndexPositions st))) (iteratorIndexPositions st)\<rparr>"
proof (cases "iteratorIndexPositions st")
  case Nil
  with assms show ?thesis by simp
next
  case (Cons p ps)
  have "fold min ps p = Min (set (p # ps))" by (simp only: Min.set_eq_fold)
  then show ?thesis using Cons by (simp add: cleanupStreamBuffer_def Let_def)
qed

lemma rebase_facts:
  fixes ps :: "int list"
  assumes len: "length ps = N" "0 < N"
    and rng: "\<forall>i<N. 0 \<le> ps ! i \<and> ps ! i \<le> int L"
  shows "0 \<le> Min (set ps)"
    and "nat (Min (set ps)) \<le> L"
    and "\<forall>i<N. 0 \<le> ps ! i - Min (set ps) \<and> ps ! i - Min (set ps) \<le> int (L - nat (Min (set ps)))"
    and "\<exists>i<N. ps ! i - Min (set ps) = 0"
    and "(\<exists>i<N. ps ! i = int L) \<Longrightarrow> \<exists>i<N. ps ! i - Min (set ps) = int (L - nat (Min (set ps)))"
proof -
  let ?m = "Min (set ps)"
  have ne: "set ps \<noteq> {}" using len by auto
  have mem: "?m \<in> set ps" using ne by (simp add: Min_in)
  then obtain k where k: "k < N" "ps ! k = ?m"
    using len by (auto simp: in_set_conv_nth)
  have le: "\<And>i. i < N \<Longrightarrow> ?m \<le> ps ! i" using len by simp
  show m0: "0 \<le> ?m" using k rng by metis
  show mL: "nat ?m \<le> L" using k rng by (metis nat_le_iff)
  show "\<forall>i<N. 0 \<le> ps ! i - ?m \<and> ps ! i - ?m \<le> int (L - nat ?m)"
    using le rng m0 mL by (auto simp: of_nat_diff)
  show "\<exists>i<N. ps ! i - ?m = 0" using k by auto
  show "(\<exists>i<N. ps ! i = int L) \<Longrightarrow> \<exists>i<N. ps ! i - ?m = int (L - nat ?m)"
    using m0 mL by (auto simp: of_nat_diff)
qed

lemma cleanup_frame:
  "sourceIterator (cleanupStreamBuffer st) = sourceIterator st"
  "pulls (cleanupStreamBuffer st) = pulls st"
  "streamExhausted (cleanupStreamBuffer st) = streamExhausted st"
  "streamError (cleanupStreamBuffer st) = streamError st"
  "done_flags (cleanupStreamBuffer st) = done_flags st"
  by (simp_all add: cleanupStreamBuffer_def Let_def split: list.splits)

lemma cleanup_wf:
  assumes "length (iteratorIndexPositions st) = N" "0 < N" "length (done_flags st) = N"
    and "\<forall>i<N. 0 \<le> iteratorIndexPositions st ! i \<and>
                iteratorIndexPositions st ! i \<le> int (length (streamBuffer st))"
    and "\<exists>i<N. iteratorIndexPositions st ! i = int (length (streamBuffer st))"
  shows "tee_wf N (cleanupStreamBuffer st)"
proof -
  have ne: "iteratorIndexPositions st \<noteq> []" using assms(1,2) by auto
  note rb = rebase_facts[OF assms(1) assms(2) assms(4)]
  show ?thesis
    unfolding tee_wf_def cleanup_nonempty[OF ne]
    using assms(1,2,3) rb(1,2,3,4) rb(5)[OF assms(5)]
    by (simp cong: conj_cong)
qed

lemma cursor_next_done:
  "done_flags st ! j \<Longrightarrow> cursor_next j st = (Inr (IterResult JUndefined True), st)"
  by (simp add: cursor_next_def)

lemma cursor_next_buffered:
  assumes "\<not> done_flags st ! j"
    and "iteratorIndexPositions st ! j < int (length (streamBuffer st))"
    and "0 \<le> iteratorIndexPositions st ! j"
  shows "cursor_next j st =
     (Inr (IterResult (streamBuffer st ! nat (iteratorIndexPositions st ! j)) False),
      cleanupStreamBuffer
        (st\<lparr>iteratorIndexPositions :=
              (iteratorIndexPositions st)[j := iteratorIndexPositions st ! j + 1]\<rparr>))"
  using assms by (simp add: cursor_next_def Let_def)

lemma getNext_frame:
  assumes "getNextStreamElement st = (r, st')"
  shows "iteratorIndexPositions st' = iteratorIndexPositions st"
    and "streamBuffer st' = streamBuffer st"
    and "done_flags st' = done_flags st"
  using assms
  by (auto simp: getNextStreamElement_def source_next_def
           split: if_splits list.splits src_event.splits)

lemma cursor_next_wf:
  assumes wf: "tee_wf N st" and j: "j < N"
  shows "tee_wf N (snd (cursor_next j st))"
proof (cases "done_flags st ! j")
  case True
  then show ?thesis using wf by (simp add: cursor_next_done)
next
  case nd: False
  let ?p = "iteratorIndexPositions st ! j"
  let ?L = "length (streamBuffer st)"
  have N: "0 < N" using j by simp
  from wf have lens: "length (iteratorIndexPositions st) = N" "length (done_flags st) = N"
    and rng: "\<forall>i<N. 0 \<le> iteratorIndexPositions st ! i \<and> iteratorIndexPositions st ! i \<le> int ?L"
    and top: "\<exists>i<N. iteratorIndexPositions st ! i = int ?L"
    using N by (auto simp: tee_wf_def)
  show ?thesis
  proof (cases "?p < int ?L")
    case True
    let ?st1 = "st\<lparr>iteratorIndexPositions := (iteratorIndexPositions st)[j := ?p + 1]\<rparr>"
    have p0: "0 \<le> ?p" using rng j by simp
    have "tee_wf N (cleanupStreamBuffer ?st1)"
    proof (rule cleanup_wf)
      show "\<forall>i<N. 0 \<le> iteratorIndexPositions ?st1 ! i \<and>
              iteratorIndexPositions ?st1 ! i \<le> int (length (streamBuffer ?st1))"
        using rng True lens j by (auto simp: nth_list_update)
      from top obtain k where k: "k < N" "iteratorIndexPositions st ! k = int ?L" by blast
      with True have "k \<noteq> j" by auto
      then show "\<exists>i<N. iteratorIndexPositions ?st1 ! i = int (length (streamBuffer ?st1))"
        using k lens by (auto simp: nth_list_update)
    qed (use lens N in simp_all)
    then show ?thesis using nd True p0 by (simp add: cursor_next_buffered)
  next
    case False
    with rng j have pL: "?p = int ?L" by force
    obtain r st' where g: "getNextStreamElement st = (r, st')" by (cases "getNextStreamElement st")
    note fr = getNext_frame[OF g]
    have wf': "tee_wf N st'" using wf fr by (simp add: tee_wf_def)
    show ?thesis
    proof (cases r)
      case (Inl e)
      then show ?thesis using nd False g wf' by (simp add: cursor_next_def)
    next
      case (Inr res)
      show ?thesis
      proof (cases "ir_done res")
        case True
        then show ?thesis using nd False g Inr wf' by (simp add: cursor_next_def tee_wf_def)
      next
        case nres: False
        let ?st2 = "st'\<lparr>streamBuffer := streamBuffer st' @ [ir_value res],
                        iteratorIndexPositions := (iteratorIndexPositions st')[j := ?p + 1]\<rparr>"
        have "tee_wf N (cleanupStreamBuffer ?st2)"
        proof (rule cleanup_wf)
          show "\<forall>i<N. 0 \<le> iteratorIndexPositions ?st2 ! i \<and>
              iteratorIndexPositions ?st2 ! i \<le> int (length (streamBuffer ?st2))"
            using rng pL lens fr j by (auto simp: nth_list_update)
          show "\<exists>i<N. iteratorIndexPositions ?st2 ! i = int (length (streamBuffer ?st2))"
            using j pL lens fr by (auto simp: nth_list_update intro!: exI[of _ j])
        qed (use lens N fr in simp_all)
        then show ?thesis using nd False g Inr nres by (simp add: cursor_next_def Let_def)
      qed
    qed
  qed
qed

lemma cleanup_content:
  assumes c: "tee_content S b st" and ne: "iteratorIndexPositions st \<noteq> []"
    and m: "0 \<le> Min (set (iteratorIndexPositions st))"
           "nat (Min (set (iteratorIndexPositions st))) \<le> length (streamBuffer st)"
  shows "tee_content S (b + nat (Min (set (iteratorIndexPositions st)))) (cleanupStreamBuffer st)"
proof -
  let ?m = "nat (Min (set (iteratorIndexPositions st)))"
  let ?L = "length (streamBuffer st)"
  from c have buf: "\<forall>k<?L. streamBuffer st ! k = S ! (b + k)"
    by (simp add: tee_content_def)
  have d: "\<forall>k<?L - ?m. drop ?m (streamBuffer st) ! k = S ! (b + ?m + k)"
    using buf m(2) by (simp add: add.assoc)
  show ?thesis
    unfolding cleanup_nonempty[OF ne] tee_content_def
    using c m d by (simp add: tee_content_def)
qed

lemma cleanup_inv:
  assumes lens: "length (iteratorIndexPositions st) = N" "0 < N" "length (done_flags st) = N"
    and rng: "\<forall>i<N. 0 \<le> iteratorIndexPositions st ! i \<and>
                iteratorIndexPositions st ! i \<le> int (length (streamBuffer st))"
    and top: "\<exists>i<N. iteratorIndexPositions st ! i = int (length (streamBuffer st))"
    and c: "tee_content S b st"
    and dn: "\<forall>i<N. done_flags st ! i \<longrightarrow>
        streamExhausted st \<and> iteratorIndexPositions st ! i = int (length (streamBuffer st))"
  shows "\<exists>b'. tee_inv S N b' (cleanupStreamBuffer st) \<and>
           (\<forall>i<N. lpos b' (cleanupStreamBuffer st) i = lpos b st i)"
proof -
  let ?m = "Min (set (iteratorIndexPositions st))"
  have ne: "iteratorIndexPositions st \<noteq> []" using lens by auto
  note rb = rebase_facts[OF lens(1) lens(2) rng]
  have wf: "tee_wf N (cleanupStreamBuffer st)"
    by (rule cleanup_wf[OF lens(1) lens(2) lens(3) rng top])
  have ct: "tee_content S (b + nat ?m) (cleanupStreamBuffer st)"
    by (rule cleanup_content[OF c ne rb(1) rb(2)])
  have dn': "\<forall>i<N. done_flags (cleanupStreamBuffer st) ! i \<longrightarrow>
      streamExhausted (cleanupStreamBuffer st) \<and>
      iteratorIndexPositions (cleanupStreamBuffer st) ! i
        = int (length (streamBuffer (cleanupStreamBuffer st)))"
    using dn lens rb(1,2) by (simp add: cleanup_nonempty[OF ne] of_nat_diff)
  have le: "\<And>i. i < N \<Longrightarrow> ?m \<le> iteratorIndexPositions st ! i" using lens by simp
  have "\<And>i. i < N \<Longrightarrow>
      nat ?m + nat (iteratorIndexPositions st ! i - ?m) = nat (iteratorIndexPositions st ! i)"
    using le rb(1) by (simp add: nat_add_distrib[symmetric])
  then have lp: "\<forall>i<N. lpos (b + nat ?m) (cleanupStreamBuffer st) i = lpos b st i"
    using lens by (simp add: lpos_def cleanup_nonempty[OF ne])
  show ?thesis using wf ct dn' lp unfolding tee_inv_def by blast
qed

lemma next_inv_yield:
  assumes inv: "tee_inv S N b st" and j: "j < N" and nd: "\<not> done_flags st ! j"
    and lt: "lpos b st j < length S"
  shows "\<exists>st' b'. cursor_next j st = (Inr (IterResult (S ! lpos b st j) False), st') \<and>
           tee_inv S N b' st' \<and> done_flags st' = done_flags st \<and>
           (\<forall>i<N. lpos b' st' i = lpos b st i + (if i = j then 1 else 0))"
proof -
  let ?ps = "iteratorIndexPositions st"
  let ?p = "?ps ! j"
  let ?L = "length (streamBuffer st)"
  have N: "0 < N" using j by simp
  from inv have wf: "tee_wf N st" and c: "tee_content S b st"
    and dn: "\<forall>i<N. done_flags st ! i \<longrightarrow> streamExhausted st \<and> ?ps ! i = int ?L"
    by (auto simp: tee_inv_def)
  from wf have lens: "length ?ps = N" "length (done_flags st) = N"
    and rng: "\<forall>i<N. 0 \<le> ?ps ! i \<and> ?ps ! i \<le> int ?L"
    and top: "\<exists>i<N. ?ps ! i = int ?L"
    using N by (auto simp: tee_wf_def)
  have p0: "0 \<le> ?p" and pL: "?p \<le> int ?L" using rng j by auto
  show ?thesis
  proof (cases "?p < int ?L")
    case True
    let ?st1 = "st\<lparr>iteratorIndexPositions := ?ps[j := ?p + 1]\<rparr>"
    have step: "cursor_next j st =
        (Inr (IterResult (streamBuffer st ! nat ?p) False), cleanupStreamBuffer ?st1)"
      by (rule cursor_next_buffered[OF nd True p0])
    have "nat ?p < ?L" using True p0 by simp
    with c have val: "streamBuffer st ! nat ?p = S ! lpos b st j"
      by (simp add: tee_content_def lpos_def)
    have "\<exists>b'. tee_inv S N b' (cleanupStreamBuffer ?st1) \<and>
           (\<forall>i<N. lpos b' (cleanupStreamBuffer ?st1) i = lpos b ?st1 i)"
    proof (rule cleanup_inv)
      show "\<forall>i<N. 0 \<le> iteratorIndexPositions ?st1 ! i \<and>
              iteratorIndexPositions ?st1 ! i \<le> int (length (streamBuffer ?st1))"
        using rng True lens j by (auto simp: nth_list_update)
      from top obtain k where k: "k < N" "?ps ! k = int ?L" by blast
      with True have "k \<noteq> j" by auto
      then show "\<exists>i<N. iteratorIndexPositions ?st1 ! i = int (length (streamBuffer ?st1))"
        using k lens by (auto simp: nth_list_update)
      show "tee_content S b ?st1" using c by (simp add: tee_content_def)
      show "\<forall>i<N. done_flags ?st1 ! i \<longrightarrow> streamExhausted ?st1 \<and>
          iteratorIndexPositions ?st1 ! i = int (length (streamBuffer ?st1))"
        using dn nd lens j by (auto simp: nth_list_update)
    qed (use lens N in simp_all)
    then obtain b' where b': "tee_inv S N b' (cleanupStreamBuffer ?st1)"
      "\<forall>i<N. lpos b' (cleanupStreamBuffer ?st1) i = lpos b ?st1 i" by blast
    have "\<forall>i<N. lpos b ?st1 i = lpos b st i + (if i = j then 1 else 0)"
      using lens j p0 by (auto simp: lpos_def nth_list_update nat_add_distrib)
    with b' step val show ?thesis by (auto simp: cleanup_frame)
  next
    case False
    with pL have pe: "?p = int ?L" by simp
    have bl: "b + ?L < length S" using lt pe by (simp add: lpos_def)
    from c bl have nex: "\<not> streamExhausted st" and nerr: "\<not> truthy (streamError st)"
      by (auto simp: tee_content_def)
    let ?v = "S ! (b + ?L)"
    from c have src: "sourceIterator st = Yield ?v # map Yield (drop (Suc (b + ?L)) S)"
      using bl by (simp add: tee_content_def Cons_nth_drop_Suc[symmetric])
    let ?st2 = "st\<lparr>sourceIterator := map Yield (drop (Suc (b + ?L)) S), pulls := pulls st + 1,
                    streamBuffer := streamBuffer st @ [?v],
                    iteratorIndexPositions := ?ps[j := ?p + 1]\<rparr>"
    have step: "cursor_next j st = (Inr (IterResult ?v False), cleanupStreamBuffer ?st2)"
      using nd False nex nerr src
      by (simp add: cursor_next_def getNextStreamElement_def source_next_def Let_def)
    have "\<exists>b'. tee_inv S N b' (cleanupStreamBuffer ?st2) \<and>
           (\<forall>i<N. lpos b' (cleanupStreamBuffer ?st2) i = lpos b ?st2 i)"
    proof (rule cleanup_inv)
      show "\<forall>i<N. 0 \<le> iteratorIndexPositions ?st2 ! i \<and>
              iteratorIndexPositions ?st2 ! i \<le> int (length (streamBuffer ?st2))"
        using rng pe lens j by (auto simp: nth_list_update)
      show "\<exists>i<N. iteratorIndexPositions ?st2 ! i = int (length (streamBuffer ?st2))"
        using j pe lens by (auto simp: nth_list_update intro!: exI[of _ j])
      show "tee_content S b ?st2" using c bl nex
        by (auto simp: tee_content_def nth_append less_Suc_eq)
      show "\<forall>i<N. done_flags ?st2 ! i \<longrightarrow> streamExhausted ?st2 \<and>
          iteratorIndexPositions ?st2 ! i = int (length (streamBuffer ?st2))"
        using dn nex by auto
    qed (use lens N in simp_all)
    then obtain b' where b': "tee_inv S N b' (cleanupStreamBuffer ?st2)"
      "\<forall>i<N. lpos b' (cleanupStreamBuffer ?st2) i = lpos b ?st2 i" by blast
    have "\<forall>i<N. lpos b ?st2 i = lpos b st i + (if i = j then 1 else 0)"
      using lens j p0 by (auto simp: lpos_def nth_list_update nat_add_distrib)
    moreover have "?v = S ! lpos b st j" using pe by (simp add: lpos_def)
    ultimately show ?thesis using b' step by (auto simp: cleanup_frame)
  qed
qed

lemma next_inv_end:
  assumes inv: "tee_inv S N b st" and j: "j < N" and nd: "\<not> done_flags st ! j"
    and eq: "lpos b st j = length S"
  shows "\<exists>st'. cursor_next j st = (Inr (IterResult JUndefined True), st') \<and>
           tee_inv S N b st' \<and> done_flags st' = (done_flags st)[j := True] \<and>
           iteratorIndexPositions st' = iteratorIndexPositions st \<and>
           pulls st' = length S + 1"
proof -
  let ?ps = "iteratorIndexPositions st"
  let ?p = "?ps ! j"
  let ?L = "length (streamBuffer st)"
  have N: "0 < N" using j by simp
  from inv have wf: "tee_wf N st" and c: "tee_content S b st"
    and dn: "\<forall>i<N. done_flags st ! i \<longrightarrow> streamExhausted st \<and> ?ps ! i = int ?L"
    by (auto simp: tee_inv_def)
  from wf have lens: "length ?ps = N" "length (done_flags st) = N"
    and rng: "\<forall>i<N. 0 \<le> ?ps ! i \<and> ?ps ! i \<le> int ?L"
    using N by (auto simp: tee_wf_def)
  have p0: "0 \<le> ?p" and pL: "?p \<le> int ?L" using rng j by auto
  from c have bl: "b + ?L \<le> length S" by (simp add: tee_content_def)
  with eq pL p0 have pe: "?p = int ?L" and be: "b + ?L = length S"
    by (auto simp: lpos_def)
  from c be have src: "sourceIterator st = []" by (simp add: tee_content_def)
  let ?st' = "(if streamExhausted st then st
               else st\<lparr>pulls := pulls st + 1, streamExhausted := True\<rparr>)
              \<lparr>done_flags := (done_flags st)[j := True]\<rparr>"
  have step: "cursor_next j st = (Inr (IterResult JUndefined True), ?st')"
    using nd pe src c
    by (simp add: cursor_next_def getNextStreamElement_def source_next_def tee_content_def)
  have "tee_inv S N b ?st'"
    using inv be pe j lens
    by (auto simp: tee_inv_def tee_wf_def tee_content_def nth_list_update)
  moreover have "pulls ?st' = length S + 1" using c be by (auto simp: tee_content_def)
  ultimately show ?thesis using step by auto
qed

lemma inv_lpos_le:
  assumes "tee_inv S N b st" "i < N"
  shows "lpos b st i \<le> length S"
proof -
  from assms have "iteratorIndexPositions st ! i \<le> int (length (streamBuffer st))"
    and "b + length (streamBuffer st) \<le> length S"
    by (auto simp: tee_inv_def tee_wf_def tee_content_def)
  then show ?thesis by (simp add: lpos_def)
qed

lemma inv_done_lpos:
  assumes "tee_inv S N b st" "i < N" "done_flags st ! i"
  shows "lpos b st i = length S"
  using assms by (auto simp: tee_inv_def tee_content_def lpos_def)

lemma exec_next_inv:
  assumes "tee_inv S N b st" and "\<forall>j\<in>set js. j < N"
    and "exec (map Next js) st = (rs, st')"
  shows "\<exists>b'. tee_inv S N b' st' \<and>
     (\<forall>i<N. yields_of i (map Next js) rs = take (count_list js i) (drop (lpos b st i) S) \<and>
             lpos b' st' i = min (lpos b st i + count_list js i) (length S) \<and>
             done_flags st' ! i = (done_flags st ! i \<or> length S < lpos b st i + count_list js i))"
  using assms
proof (induction js arbitrary: st b rs)
  case Nil
  then have "st' = st" "rs = []" by auto
  moreover have "\<And>i. i < N \<Longrightarrow> lpos b st i \<le> length S"
    using Nil.prems(1) by (rule inv_lpos_le)
  ultimately show ?case using Nil.prems(1)
    by (auto intro!: exI[of _ b] simp: min_def dest: leD)
next
  case (Cons j js)
  have j: "j < N" and js: "\<forall>j\<in>set js. j < N" using Cons.prems(2) by auto
  obtain r st1 where step: "cursor_next j st = (r, st1)" by (cases "cursor_next j st")
  obtain rs1 where ex: "exec (map Next js) st1 = (rs1, st')" and rs: "rs = r # rs1"
    using Cons.prems(3) step by (auto split: prod.splits)
  note inv = Cons.prems(1)
  consider (dn) "done_flags st ! j"
    | (yl) "\<not> done_flags st ! j" "lpos b st j < length S"
    | (en) "\<not> done_flags st ! j" "lpos b st j = length S"
    using inv_lpos_le[OF inv j] by linarith
  then show ?case
  proof cases
    case dn
    then have r: "r = Inr (IterResult JUndefined True)" and st1: "st1 = st"
      using step by (auto simp: cursor_next_done)
    from Cons.IH[OF inv[folded st1] js ex] obtain b' where b': "tee_inv S N b' st'"
      and P: "\<And>i. i < N \<Longrightarrow>
          yields_of i (map Next js) rs1 = take (count_list js i) (drop (lpos b st i) S) \<and>
          lpos b' st' i = min (lpos b st i + count_list js i) (length S) \<and>
          done_flags st' ! i = (done_flags st ! i \<or> length S < lpos b st i + count_list js i)"
      unfolding st1 by blast
    have lj: "lpos b st j = length S" by (rule inv_done_lpos[OF inv j dn])
    have "\<forall>i<N. yields_of i (map Next (j # js)) rs =
               take (count_list (j # js) i) (drop (lpos b st i) S) \<and>
             lpos b' st' i = min (lpos b st i + count_list (j # js) i) (length S) \<and>
             done_flags st' ! i =
               (done_flags st ! i \<or> length S < lpos b st i + count_list (j # js) i)"
      using P lj dn by (auto simp: rs r)
    with b' show ?thesis by blast
  next
    case yl
    from next_inv_yield[OF inv j yl(1) yl(2)] step obtain b1 where
      r: "r = Inr (IterResult (S ! lpos b st j) False)" and inv1: "tee_inv S N b1 st1"
      and d1: "done_flags st1 = done_flags st"
      and l1: "\<And>i. i < N \<Longrightarrow> lpos b1 st1 i = lpos b st i + (if i = j then 1 else 0)"
      by auto
    from Cons.IH[OF inv1 js ex] obtain b' where b': "tee_inv S N b' st'"
      and P: "\<And>i. i < N \<Longrightarrow>
          yields_of i (map Next js) rs1 = take (count_list js i) (drop (lpos b1 st1 i) S) \<and>
          lpos b' st' i = min (lpos b1 st1 i + count_list js i) (length S) \<and>
          done_flags st' ! i = (done_flags st1 ! i \<or> length S < lpos b1 st1 i + count_list js i)"
      by blast
    have hd: "drop (lpos b st j) S = S ! lpos b st j # drop (Suc (lpos b st j)) S"
      using yl(2) by (simp add: Cons_nth_drop_Suc)
    have "\<forall>i<N. yields_of i (map Next (j # js)) rs =
               take (count_list (j # js) i) (drop (lpos b st i) S) \<and>
             lpos b' st' i = min (lpos b st i + count_list (j # js) i) (length S) \<and>
             done_flags st' ! i =
               (done_flags st ! i \<or> length S < lpos b st i + count_list (j # js) i)"
    proof (intro allI impI)
      fix i assume i: "i < N"
      show "yields_of i (map Next (j # js)) rs =
               take (count_list (j # js) i) (drop (lpos b st i) S) \<and>
             lpos b' st' i = min (lpos b st i + count_list (j # js) i) (length S) \<and>
             done_flags st' ! i =
               (done_flags st ! i \<or> length S < lpos b st i + count_list (j # js) i)"
      proof (cases "i = j")
        case True
        with P[OF i] l1[OF i] hd d1 yl show ?thesis by (simp add: rs r)
      next
        case False
        with P[OF i] l1[OF i] d1 show ?thesis by (simp add: rs r)
      qed
    qed
    with b' show ?thesis by blast
  next
    case en
    from next_inv_end[OF inv j en(1) en(2)] step have
      r: "r = Inr (IterResult JUndefined True)" and inv1: "tee_inv S N b st1"
      and d1: "done_flags st1 = (done_flags st)[j := True]"
      and p1: "iteratorIndexPositions st1 = iteratorIndexPositions st"
      by auto
    have l1: "\<And>i. lpos b st1 i = lpos b st i" by (simp add: lpos_def p1)
    have dl: "length (done_flags st) = N" using inv by (simp add: tee_inv_def tee_wf_def)
    from Cons.IH[OF inv1 js ex] obtain b' where b': "tee_inv S N b' st'"
      and P: "\<And>i. i < N \<Longrightarrow>
          yields_of i (map Next js) rs1 = take (count_list js i) (drop (lpos b st i) S) \<and>
          lpos b' st' i = min (lpos b st i + count_list js i) (length S) \<and>
          done_flags st' ! i = (done_flags st1 ! i \<or> length S < lpos b st i + count_list js i)"
      unfolding l1 by blast
    have "\<forall>i<N. yields_of i (map Next (j # js)) rs =
               take (count_list (j # js) i) (drop (lpos b st i) S) \<and>
             lpos b' st' i = min (lpos b st i + count_list (j # js) i) (length S) \<and>
             done_flags st' ! i =
               (done_flags st ! i \<or> length S < lpos b st i + count_list (j # js) i)"
    proof (intro allI impI)
      fix i assume i: "i < N"
      show "yields_of i (map Next (j # js)) rs =
               take (count_list (j # js) i) (drop (lpos b st i) S) \<and>
             lpos b' st' i = min (lpos b st i + count_list (j # js) i) (length S) \<and>
             done_flags st' ! i =
               (done_flags st ! i \<or> length S < lpos b st i + count_list (j # js) i)"
      proof (cases "i = j")
        case True
        with P[OF i] en d1 dl j show ?thesis by (simp add: rs r)
      next
        case False
        with P[OF i] d1 dl show ?thesis by (simp add: rs r)
      qed
    qed
    with b' show ?thesis by blast
  qed
qed

lemma initial_wf: "tee_wf N (initial_state evs N)"
  by (auto simp: tee_wf_def initial_state_def)

lemma initial_inv: "tee_inv S N 0 (initial_state (map Yield S) N)"
  by (auto simp: tee_inv_def tee_wf_def tee_content_def initial_state_def)

lemma initial_lpos: "i < N \<Longrightarrow> lpos 0 (initial_state evs N) i = 0"
  by (simp add: lpos_def initial_state_def)

lemma cursor_step_wf:
  assumes "tee_wf N st" "op_index c < N"
  shows "tee_wf N (snd (cursor_step c st))"
proof (cases c)
  case (Next i)
  then show ?thesis using assms cursor_next_wf by simp
next
  case (Return i v)
  then show ?thesis using assms by (simp add: cursor_return_def tee_wf_def)
next
  case (Throw i e)
  then show ?thesis using assms by (simp add: cursor_throw_def tee_wf_def)
qed

lemma snd_exec_Cons: "snd (exec (c # cs) st) = snd (exec cs (snd (cursor_step c st)))"
  by (simp split: prod.splits)


lemma exec_wf:
  assumes "tee_wf N st" "\<forall>c\<in>set cs. op_index c < N"
  shows "tee_wf N (snd (exec cs st))"
  using assms
proof (induction cs arbitrary: st)
  case Nil
  then show ?case by simp
next
  case (Cons c cs)
  have "tee_wf N (snd (cursor_step c st))" using Cons.prems by (simp add: cursor_step_wf)
  moreover have "\<forall>c\<in>set cs. op_index c < N" using Cons.prems(2) by simp
  ultimately show ?case using Cons.IH by (simp only: snd_exec_Cons)
qed

lemma wf_max_min:
  assumes wf: "tee_wf N st" and N: "0 < N"
  shows "Min (set (iteratorIndexPositions st)) = 0"
    and "Max (set (iteratorIndexPositions st)) = int (length (streamBuffer st))"
proof -
  let ?ps = "iteratorIndexPositions st"
  from wf N have len: "length ?ps = N"
    and rng: "\<forall>i<N. 0 \<le> ?ps ! i \<and> ?ps ! i \<le> int (length (streamBuffer st))"
    and z: "\<exists>i<N. ?ps ! i = 0" and t: "\<exists>i<N. ?ps ! i = int (length (streamBuffer st))"
    by (auto simp: tee_wf_def)
  have ne: "set ?ps \<noteq> {}" using len N by auto
  have all: "\<forall>p\<in>set ?ps. 0 \<le> p \<and> p \<le> int (length (streamBuffer st))"
    using rng len by (auto simp: in_set_conv_nth)
  have z': "0 \<in> set ?ps" using z len by (metis nth_mem)
  have t': "int (length (streamBuffer st)) \<in> set ?ps" using t len by (metis nth_mem)
  show "Min (set ?ps) = 0" using all z' by (intro Min_eqI) auto
  show "Max (set ?ps) = int (length (streamBuffer st))" using all t' by (intro Max_eqI) auto
qed

lemma next_frontier_error:
  assumes "\<not> done_flags st ! j"
    and "\<not> iteratorIndexPositions st ! j < int (length (streamBuffer st))"
    and "\<not> streamExhausted st" and "truthy (streamError st)"
  shows "cursor_next j st = (Inl (streamError st), st)"
  using assms by (simp add: cursor_next_def getNextStreamElement_def)

lemma next_source_raises:
  assumes "\<not> done_flags st ! j"
    and "\<not> iteratorIndexPositions st ! j < int (length (streamBuffer st))"
    and "\<not> streamExhausted st" and "\<not> truthy (streamError st)"
    and "sourceIterator st = Raise e # rest"
  shows "cursor_next j st =
           (Inl e, st\<lparr>sourceIterator := rest, pulls := pulls st + 1, streamError := e\<rparr>)"
  using assms by (simp add: cursor_next_def getNextStreamElement_def source_next_def)

lemma frozen_step:
  assumes "truthy (streamError st) \<or> streamExhausted st"
  shows "pulls (snd (cursor_step c st)) = pulls st \<and>
         sourceIterator (snd (cursor_step c st)) = sourceIterator st \<and>
         streamError (snd (cursor_step c st)) = streamError st \<and>
         streamExhausted (snd (cursor_step c st)) = streamExhausted st"
proof (cases c)
  case (Next j)
  show ?thesis using assms unfolding Next
    by (auto simp: cursor_next_def getNextStreamElement_def Let_def cleanup_frame)
next
  case (Return j v)
  then show ?thesis by (simp add: cursor_return_def)
next
  case (Throw j e)
  then show ?thesis by (simp add: cursor_throw_def)
qed

lemma frozen_exec:
  assumes "truthy (streamError st) \<or> streamExhausted st"
  shows "pulls (snd (exec cs st)) = pulls st \<and>
         sourceIterator (snd (exec cs st)) = sourceIterator st \<and>
         streamError (snd (exec cs st)) = streamError st \<and>
         streamExhausted (snd (exec cs st)) = streamExhausted st"
  using assms
proof (induction cs arbitrary: st)
  case Nil
  then show ?case by simp
next
  case (Cons c cs)
  note fs = frozen_step[OF Cons.prems, of c]
  then have "truthy (streamError (snd (cursor_step c st))) \<or> streamExhausted (snd (cursor_step c st))"
    using Cons.prems by simp
  from Cons.IH[OF this] fs show ?case by (simp only: snd_exec_Cons)
qed










lemma create_ok:
  assumes "has_iterator src" and "N < 2 ^ 32"
  shows "createTeeIterators [src, JNum (real N)] = Inr ([0..<N], initial_state (iterate src) N)"
proof -
  have "src \<noteq> JUndefined" "src \<noteq> JNull" using assms(1) by auto
  moreover have "\<not> (2::int) ^ 32 \<le> int N" using assms(2) by simp
  ultimately show ?thesis using assms(1) by (simp add: createTeeIterators_def del: power_numeral)
qed

lemma create_state:
  assumes "createTeeIterators args = Inr (cursors, st0)"
  shows "cursors = [0..<length cursors] \<and> st0 = initial_state (iterate (args ! 0)) (length cursors)"
  using assms
  by (auto simp: createTeeIterators_def Let_def split: if_splits jsval.splits)

lemmas tee_eval = cursor_next_def getNextStreamElement_def source_next_def
  cleanupStreamBuffer_def cursor_return_def cursor_throw_def initial_state_def Let_def

text \<open>
  Claim C1.  Split a source that yields the finite sequence \<open>S\<close> into \<open>N \<ge> 1\<close> cursors and
  call \<open>next()\<close> on them in any order \<open>js\<close>.  Whatever the interleaving, the values cursor
  \<open>i\<close> has handed out are the first \<open>k\<close> elements of \<open>S\<close>, in order, where \<open>k\<close> is the number
  of calls made on it (capped at the length of \<open>S\<close>), and it is terminal exactly when it was
  called more often than \<open>S\<close> has elements: a drained cursor has yielded exactly \<open>S\<close>.
\<close>

theorem split_cursors_replay_source:
  assumes "has_iterator src" and "iterate src = map Yield S"
    and "1 \<le> N" and "N < 2 ^ 32" and "\<forall>j\<in>set js. j < N"
  shows "createTeeIterators [src, JNum (real N)] = Inr ([0..<N], initial_state (map Yield S) N) \<and>
         (\<forall>i<N. yields_of i (map Next js) (fst (exec (map Next js) (initial_state (map Yield S) N)))
                   = take (count_list js i) S \<and>
                 (done_flags (snd (exec (map Next js) (initial_state (map Yield S) N))) ! i \<longleftrightarrow>
                    length S < count_list js i))"
proof -
  let ?st0 = "initial_state (map Yield S) N"
  have c: "createTeeIterators [src, JNum (real N)] = Inr ([0..<N], ?st0)"
    using create_ok[OF assms(1) assms(4)] assms(2) by simp
  obtain rs st' where ex: "exec (map Next js) ?st0 = (rs, st')"
    by (cases "exec (map Next js) ?st0")
  from exec_next_inv[OF initial_inv assms(5) ex] obtain b' where
    P: "\<And>i. i < N \<Longrightarrow>
          yields_of i (map Next js) rs = take (count_list js i) (drop (lpos 0 ?st0 i) S) \<and>
          done_flags st' ! i = (done_flags ?st0 ! i \<or> length S < lpos 0 ?st0 i + count_list js i)"
    by blast
  have "\<forall>i<N. yields_of i (map Next js) (fst (exec (map Next js) ?st0))
                     = take (count_list js i) S \<and>
                   (done_flags (snd (exec (map Next js) ?st0)) ! i \<longleftrightarrow>
                      length S < count_list js i)"
    using P by (simp add: ex initial_lpos) (simp add: initial_state_def)
  with c show ?thesis by blast
qed

text \<open>
  The instance of the spec: \<open>split([10,20,30], 2)\<close>, cursor 0 drained before cursor 1 is
  touched.
\<close>

theorem split_cursors_replay_source_witness:
  "createTeeIterators [JArr [JNum 10, JNum 20, JNum 30], JNum 2]
     = Inr ([0..<2], initial_state (map Yield [JNum 10, JNum 20, JNum 30]) 2) \<and>
   yields_of 0 (map Next [0, 0, 0, 0, 1, 1, 1, 1])
     (fst (exec (map Next [0, 0, 0, 0, 1, 1, 1, 1])
             (initial_state (map Yield [JNum 10, JNum 20, JNum 30]) 2)))
     = [JNum 10, JNum 20, JNum 30] \<and>
   yields_of 1 (map Next [0, 0, 0, 0, 1, 1, 1, 1])
     (fst (exec (map Next [0, 0, 0, 0, 1, 1, 1, 1])
             (initial_state (map Yield [JNum 10, JNum 20, JNum 30]) 2)))
     = [JNum 10, JNum 20, JNum 30] \<and>
   done_flags (snd (exec (map Next [0, 0, 0, 0, 1, 1, 1, 1])
                      (initial_state (map Yield [JNum 10, JNum 20, JNum 30]) 2))) ! 0 \<and>
   done_flags (snd (exec (map Next [0, 0, 0, 0, 1, 1, 1, 1])
                      (initial_state (map Yield [JNum 10, JNum 20, JNum 30]) 2))) ! 1"
proof -
  have h: "has_iterator (JArr [JNum 10, JNum 20, JNum 30])"
    "iterate (JArr [JNum 10, JNum 20, JNum 30]) = map Yield [JNum 10, JNum 20, JNum 30]"
    "1 \<le> (2::nat)" "(2::nat) < 2 ^ 32" "\<forall>j\<in>set [0, 0, 0, 0, 1, 1, 1, 1]. j < (2::nat)"
    by simp_all
  note t = split_cursors_replay_source[OF h]
  from t have c: "createTeeIterators [JArr [JNum 10, JNum 20, JNum 30], JNum 2]
     = Inr ([0..<2], initial_state (map Yield [JNum 10, JNum 20, JNum 30]) 2)" by simp
  from t have P: "\<And>i. i < 2 \<Longrightarrow>
      yields_of i (map Next [0, 0, 0, 0, 1, 1, 1, 1])
        (fst (exec (map Next [0, 0, 0, 0, 1, 1, 1, 1])
                (initial_state (map Yield [JNum 10, JNum 20, JNum 30]) 2)))
        = take (count_list [0, 0, 0, 0, 1, 1, 1, 1] i) [JNum 10, JNum 20, JNum 30] \<and>
      done_flags (snd (exec (map Next [0, 0, 0, 0, 1, 1, 1, 1])
                      (initial_state (map Yield [JNum 10, JNum 20, JNum 30]) 2))) ! i
        = (length [JNum 10, JNum 20, JNum 30] < count_list [0, 0, 0, 0, 1, 1, 1, 1] i)"
    by blast
  show ?thesis using c P[of 0] P[of 1] by simp
qed

text \<open>
  Claim C2.  Under any interleaving of \<open>next()\<close> calls the source iterator is pulled at most
  \<open>|S| + 1\<close> times, and once all \<open>N\<close> cursors are drained it has been pulled exactly
  \<open>|S| + 1\<close> times: once per element and once for the end, whatever \<open>N\<close> is.
\<close>

theorem source_pulled_once_per_element:
  assumes "has_iterator src" and "iterate src = map Yield S"
    and "1 \<le> N" and "N < 2 ^ 32" and "\<forall>j\<in>set js. j < N"
  shows "createTeeIterators [src, JNum (real N)] = Inr ([0..<N], initial_state (map Yield S) N) \<and>
         pulls (initial_state (map Yield S) N) = 0 \<and>
         pulls (snd (exec (map Next js) (initial_state (map Yield S) N))) \<le> length S + 1 \<and>
         ((\<forall>i<N. done_flags (snd (exec (map Next js) (initial_state (map Yield S) N))) ! i) \<longrightarrow>
            pulls (snd (exec (map Next js) (initial_state (map Yield S) N))) = length S + 1)"
proof -
  let ?st0 = "initial_state (map Yield S) N"
  have c: "createTeeIterators [src, JNum (real N)] = Inr ([0..<N], ?st0)"
    using create_ok[OF assms(1) assms(4)] assms(2) by simp
  obtain rs st' where ex: "exec (map Next js) ?st0 = (rs, st')"
    by (cases "exec (map Next js) ?st0")
  from exec_next_inv[OF initial_inv assms(5) ex] obtain b' where inv: "tee_inv S N b' st'"
    by blast
  then have ct: "tee_content S b' st'"
    and dn: "\<forall>i<N. done_flags st' ! i \<longrightarrow> streamExhausted st'"
    by (auto simp: tee_inv_def)
  have le: "pulls st' \<le> length S + 1" using ct by (auto simp: tee_content_def)
  have eq: "(\<forall>i<N. done_flags st' ! i) \<longrightarrow> pulls st' = length S + 1"
  proof
    assume "\<forall>i<N. done_flags st' ! i"
    then have "streamExhausted st'" using dn assms(3) by (metis less_eq_Suc_le One_nat_def)
    then show "pulls st' = length S + 1" using ct by (auto simp: tee_content_def)
  qed
  have "pulls ?st0 = 0" by (simp add: initial_state_def)
  with c le eq show ?thesis by (simp add: ex)
qed

text \<open>Two cursors over \<open>[10, 20]\<close> advanced in lockstep until both are drained.\<close>

theorem source_pulled_once_per_element_witness:
  "createTeeIterators [JArr [JNum 10, JNum 20], JNum 2]
     = Inr ([0..<2], initial_state (map Yield [JNum 10, JNum 20]) 2) \<and>
   pulls (initial_state (map Yield [JNum 10, JNum 20]) 2) = 0 \<and>
   pulls (snd (exec (map Next [0, 1, 0, 1, 0, 1]) (initial_state (map Yield [JNum 10, JNum 20]) 2)))
     = 3"
proof -
  have h: "has_iterator (JArr [JNum 10, JNum 20])"
    "iterate (JArr [JNum 10, JNum 20]) = map Yield [JNum 10, JNum 20]"
    "1 \<le> (2::nat)" "(2::nat) < 2 ^ 32" "\<forall>j\<in>set [0, 1, 0, 1, 0, 1]. j < (2::nat)"
    by simp_all
  note t = source_pulled_once_per_element[OF h]
  have d: "done_flags (snd (exec (map Next [0, 1, 0, 1, 0, 1])
              (initial_state (map Yield [JNum 10, JNum 20]) 2))) = [True, True]"
    by (simp add: tee_eval numeral_2_eq_2)
  have "\<forall>i<2. done_flags (snd (exec (map Next [0, 1, 0, 1, 0, 1])
              (initial_state (map Yield [JNum 10, JNum 20]) 2))) ! i"
    unfolding d by (simp add: less_Suc_eq numeral_2_eq_2)
  with t show ?thesis by simp
qed

text \<open>
  Claim C3, as amended.  In every state reachable by method calls on the cursors of a
  splitter with at least one cursor, the buffer length is the maximum read position over
  all cursors, terminal ones included, minus the minimum over all cursors, and every read
  position lies between 0 and the buffer length.
\<close>

theorem buffer_spans_all_positions:
  assumes "createTeeIterators args = Inr (cursors, st0)" and "cursors \<noteq> []"
    and "\<forall>c\<in>set cs. op_index c < length cursors"
  shows "int (length (streamBuffer (snd (exec cs st0))))
           = Max (set (iteratorIndexPositions (snd (exec cs st0))))
             - Min (set (iteratorIndexPositions (snd (exec cs st0)))) \<and>
         (\<forall>i<length cursors.
            0 \<le> iteratorIndexPositions (snd (exec cs st0)) ! i \<and>
            iteratorIndexPositions (snd (exec cs st0)) ! i
              \<le> int (length (streamBuffer (snd (exec cs st0)))))"
proof -
  let ?N = "length cursors"
  from create_state[OF assms(1)] have st0: "st0 = initial_state (iterate (args ! 0)) ?N" by simp
  have "tee_wf ?N st0" unfolding st0 by (subst st0[symmetric]) (simp add: st0 initial_wf)
  then have wf: "tee_wf ?N (snd (exec cs st0))" using assms(3) by (rule exec_wf)
  have N: "0 < ?N" using assms(2) by simp
  show ?thesis using wf_max_min[OF wf N] wf by (simp add: tee_wf_def)
qed

text \<open>Two cursors over \<open>[10]\<close>: cursor 0 drained, cursor 1 stopped early.\<close>

theorem buffer_spans_all_positions_witness:
  "int (length (streamBuffer
          (snd (exec [Next 0, Next 0, Return 1 JNull] (initial_state [Yield (JNum 10)] 2)))))
     = Max (set (iteratorIndexPositions
          (snd (exec [Next 0, Next 0, Return 1 JNull] (initial_state [Yield (JNum 10)] 2)))))
       - Min (set (iteratorIndexPositions
          (snd (exec [Next 0, Next 0, Return 1 JNull] (initial_state [Yield (JNum 10)] 2))))) \<and>
   0 \<le> iteratorIndexPositions
          (snd (exec [Next 0, Next 0, Return 1 JNull] (initial_state [Yield (JNum 10)] 2))) ! 0 \<and>
   iteratorIndexPositions
          (snd (exec [Next 0, Next 0, Return 1 JNull] (initial_state [Yield (JNum 10)] 2))) ! 0
     \<le> int (length (streamBuffer
          (snd (exec [Next 0, Next 0, Return 1 JNull] (initial_state [Yield (JNum 10)] 2)))))"
proof -
  have h: "createTeeIterators [JArr [JNum 10], JNum 2]
      = Inr ([0..<2], initial_state [Yield (JNum 10)] 2)"
    "[0..<2] \<noteq> []"
    "\<forall>c\<in>set [Next 0, Next 0, Return 1 JNull]. op_index c < length [0..<2]"
    by (simp_all add: createTeeIterators_def)
  note t = buffer_spans_all_positions[OF h]
  from t have "0 < length [0..<2] \<longrightarrow>
     0 \<le> iteratorIndexPositions
          (snd (exec [Next 0, Next 0, Return 1 JNull] (initial_state [Yield (JNum 10)] 2))) ! 0 \<and>
     iteratorIndexPositions
          (snd (exec [Next 0, Next 0, Return 1 JNull] (initial_state [Yield (JNum 10)] 2))) ! 0
       \<le> int (length (streamBuffer
          (snd (exec [Next 0, Next 0, Return 1 JNull] (initial_state [Yield (JNum 10)] 2)))))"
    by blast
  then have b: "0 \<le> iteratorIndexPositions
          (snd (exec [Next 0, Next 0, Return 1 JNull] (initial_state [Yield (JNum 10)] 2))) ! 0 \<and>
     iteratorIndexPositions
          (snd (exec [Next 0, Next 0, Return 1 JNull] (initial_state [Yield (JNum 10)] 2))) ! 0
       \<le> int (length (streamBuffer
          (snd (exec [Next 0, Next 0, Return 1 JNull] (initial_state [Yield (JNum 10)] 2)))))"
    by (simp del: exec.simps)
  from t b show ?thesis by blast
qed

text \<open>
  Claim C3 as stated fails once the fastest cursor is terminal: after cursor 0 of
  \<open>split([10], 2)\<close> is drained, the buffer still holds one element for cursor 1, while the
  only live cursor stands at position 0.
\<close>

theorem live_maximum_counterexample:
  "int (length (streamBuffer (snd (exec [Next 0, Next 0] (initial_state (iterate (JArr [JNum 10])) 2)))))
     \<noteq> Max (set (live_positions (snd (exec [Next 0, Next 0] (initial_state (iterate (JArr [JNum 10])) 2)))))
       - Min (set (iteratorIndexPositions
                    (snd (exec [Next 0, Next 0] (initial_state (iterate (JArr [JNum 10])) 2)))))"
  by (simp add: tee_eval live_positions_def numeral_2_eq_2)

text \<open>
  Claim C4, as amended.  When the source throws a truthy value during a pull made by
  \<open>next()\<close> of cursor \<open>i\<close>, that call throws the value and records it; whatever calls
  follow, the source is never pulled again, and every \<open>next()\<close> of a live cursor standing
  at the frontier throws that same value and leaves the state as it is, so the cursor is
  not made terminal by it.
\<close>

theorem source_error_replayed:
  assumes "\<not> done_flags st ! i"
    and "\<not> iteratorIndexPositions st ! i < int (length (streamBuffer st))"
    and "\<not> streamExhausted st" and "\<not> truthy (streamError st)"
    and "sourceIterator st = Raise e # rest" and "truthy e"
  shows "cursor_next i st =
           (Inl e, st\<lparr>sourceIterator := rest, pulls := pulls st + 1, streamError := e\<rparr>) \<and>
         (\<forall>cs. pulls (snd (exec cs (snd (cursor_next i st)))) = pulls st + 1 \<and>
               sourceIterator (snd (exec cs (snd (cursor_next i st)))) = rest) \<and>
         (\<forall>cs j. \<not> done_flags (snd (exec cs (snd (cursor_next i st)))) ! j \<and>
                 \<not> iteratorIndexPositions (snd (exec cs (snd (cursor_next i st)))) ! j
                    < int (length (streamBuffer (snd (exec cs (snd (cursor_next i st)))))) \<longrightarrow>
                 cursor_next j (snd (exec cs (snd (cursor_next i st))))
                   = (Inl e, snd (exec cs (snd (cursor_next i st)))))"
proof -
  let ?st1 = "st\<lparr>sourceIterator := rest, pulls := pulls st + 1, streamError := e\<rparr>"
  have step: "cursor_next i st = (Inl e, ?st1)"
    by (rule next_source_raises[OF assms(1-5)])
  have fz: "truthy (streamError ?st1) \<or> streamExhausted ?st1" using assms(6) by simp
  note fr = frozen_exec[OF fz]
  have a: "\<forall>cs. pulls (snd (exec cs ?st1)) = pulls st + 1 \<and>
               sourceIterator (snd (exec cs ?st1)) = rest"
    using fr by simp
  have b: "\<forall>cs j. \<not> done_flags (snd (exec cs ?st1)) ! j \<and>
                 \<not> iteratorIndexPositions (snd (exec cs ?st1)) ! j
                    < int (length (streamBuffer (snd (exec cs ?st1)))) \<longrightarrow>
                 cursor_next j (snd (exec cs ?st1)) = (Inl e, snd (exec cs ?st1))"
  proof (intro allI impI)
    fix cs j
    let ?st2 = "snd (exec cs ?st1)"
    assume h: "\<not> done_flags ?st2 ! j \<and>
      \<not> iteratorIndexPositions ?st2 ! j < int (length (streamBuffer ?st2))"
    have e2: "streamError ?st2 = e" and x2: "\<not> streamExhausted ?st2"
      using fr[of cs] assms(3) by simp_all
    from next_frontier_error[of ?st2 j] h e2 x2 assms(6)
    show "cursor_next j ?st2 = (Inl e, ?st2)" by simp
  qed
  show ?thesis using a b by (simp add: step)
qed

text \<open>Two cursors over a generator that throws on its first pull.\<close>

theorem source_error_replayed_witness:
  "cursor_next 0 (initial_state [Raise (JErr ''Error'' ''boom'')] 2) =
     (Inl (JErr ''Error'' ''boom''),
      (initial_state [Raise (JErr ''Error'' ''boom'')] 2)
        \<lparr>sourceIterator := [], pulls := 1, streamError := JErr ''Error'' ''boom''\<rparr>) \<and>
   pulls (snd (exec [Next 1, Next 0, Next 1]
                 (snd (cursor_next 0 (initial_state [Raise (JErr ''Error'' ''boom'')] 2))))) = 1 \<and>
   sourceIterator (snd (exec [Next 1, Next 0, Next 1]
                 (snd (cursor_next 0 (initial_state [Raise (JErr ''Error'' ''boom'')] 2))))) = [] \<and>
   cursor_next 1 (snd (exec [] (snd (cursor_next 0 (initial_state [Raise (JErr ''Error'' ''boom'')] 2)))))
     = (Inl (JErr ''Error'' ''boom''),
        snd (exec [] (snd (cursor_next 0 (initial_state [Raise (JErr ''Error'' ''boom'')] 2)))))"
proof -
  let ?st = "initial_state [Raise (JErr ''Error'' ''boom'')] 2"
  have h: "\<not> done_flags ?st ! 0"
    "\<not> iteratorIndexPositions ?st ! 0 < int (length (streamBuffer ?st))"
    "\<not> streamExhausted ?st" "\<not> truthy (streamError ?st)"
    "sourceIterator ?st = Raise (JErr ''Error'' ''boom'') # []"
    "truthy (JErr ''Error'' ''boom'')"
    by (simp_all add: initial_state_def)
  note t = source_error_replayed[OF h]
  from t have a: "cursor_next 0 ?st =
     (Inl (JErr ''Error'' ''boom''),
      ?st\<lparr>sourceIterator := [], pulls := 1, streamError := JErr ''Error'' ''boom''\<rparr>)"
    by (simp add: initial_state_def)
  from t have b: "pulls (snd (exec [Next 1, Next 0, Next 1] (snd (cursor_next 0 ?st)))) = pulls ?st + 1"
    "sourceIterator (snd (exec [Next 1, Next 0, Next 1] (snd (cursor_next 0 ?st)))) = []"
    by blast+
  have f: "\<not> done_flags (snd (exec [] (snd (cursor_next 0 ?st)))) ! 1 \<and>
           \<not> iteratorIndexPositions (snd (exec [] (snd (cursor_next 0 ?st)))) ! 1
              < int (length (streamBuffer (snd (exec [] (snd (cursor_next 0 ?st))))))"
    by (simp add: a) (simp add: initial_state_def numeral_2_eq_2)
  from t f have c: "cursor_next 1 (snd (exec [] (snd (cursor_next 0 ?st))))
     = (Inl (JErr ''Error'' ''boom''), snd (exec [] (snd (cursor_next 0 ?st))))"
    by blast
  have p0: "pulls ?st = 0" by (simp add: initial_state_def)
  show ?thesis using a b c p0 by simp
qed

text \<open>
  Claim C4 as stated fails: a second \<open>next()\<close> on the cursor that saw the error throws it
  again, and the cursor's \<open>done\<close> flag stays unset.
\<close>

theorem error_raised_again_counterexample:
  "fst (exec [Next 0, Next 0] (initial_state (iterate (JIterable [Raise (JErr ''Error'' ''boom'')])) 1))
     = [Inl (JErr ''Error'' ''boom''), Inl (JErr ''Error'' ''boom'')] \<and>
   done_flags (snd (exec [Next 0, Next 0]
                  (initial_state (iterate (JIterable [Raise (JErr ''Error'' ''boom'')])) 1)))
     = [False]"
  by (simp add: tee_eval)

text \<open>
  A falsy thrown value (here \<open>null\<close>) is not recognised as a recorded error by the test
  \<open>if (streamError)\<close>, so the next call pulls the source again.
\<close>

lemma falsy_error_pulled_again:
  "fst (exec [Next 0, Next 0] (initial_state [Raise JNull, Yield (JNum 1)] 1))
     = [Inl JNull, Inr (IterResult (JNum 1) False)] \<and>
   pulls (snd (exec [Next 0, Next 0] (initial_state [Raise JNull, Yield (JNum 1)] 1))) = 2"
  by (simp add: tee_eval)




lemma inv_pulls_pos:
  assumes "tee_inv S N b st" "i < N" "0 < lpos b st i"
  shows "0 < pulls st"
proof -
  from assms have "iteratorIndexPositions st ! i \<le> int (length (streamBuffer st))"
    and "pulls st = b + length (streamBuffer st) + (if streamExhausted st then 1 else 0)"
    by (auto simp: tee_inv_def tee_wf_def tee_content_def)
  then show ?thesis using assms(3) by (auto simp: lpos_def split: if_splits)
qed

lemma for_of_run_body:
  assumes "tee_inv S N b st" and "i < N"
  shows "\<exists>st'. for_of i body vars st calls =
            (fst (run_body body (drop (lpos b st i) S) vars calls), st',
             snd (run_body body (drop (lpos b st i) S) vars calls)) \<and>
          (case fst (run_body body (drop (lpos b st i) S) vars calls) of
             Inl e \<Rightarrow> 0 < pulls st'
           | Inr v \<Rightarrow> pulls st' = length S + 1 \<and>
               (\<exists>b'. tee_inv S N b' st' \<and> (\<forall>k<N. k \<noteq> i \<longrightarrow> lpos b' st' k = lpos b st k)))"
  using assms
proof (induction "length S - lpos b st i" arbitrary: st b vars calls)
  case 0
  note inv = "0.prems"(1)
  have i: "i < length (iteratorIndexPositions st)" using inv assms(2)
    by (simp add: tee_inv_def tee_wf_def)
  have le: "lpos b st i = length S" using "0.hyps" inv_lpos_le[OF inv assms(2)] by simp
  then have rb: "run_body body (drop (lpos b st i) S) vars calls = (Inr vars, calls)" by simp
  show ?case
  proof (cases "done_flags st ! i")
    case True
    then have "for_of i body vars st calls = (Inr vars, st, calls)"
      using i by (subst for_of.simps) (simp add: cursor_next_done)
    moreover have "pulls st = length S + 1" using inv True assms(2)
      by (auto simp: tee_inv_def tee_content_def)
    ultimately show ?thesis using inv unfolding rb by auto
  next
    case False
    from next_inv_end[OF inv assms(2) False le] obtain st' where
      st': "cursor_next i st = (Inr (IterResult JUndefined True), st')" "tee_inv S N b st'"
        "iteratorIndexPositions st' = iteratorIndexPositions st" "pulls st' = length S + 1"
      by blast
    have "for_of i body vars st calls = (Inr vars, st', calls)"
      using i st'(1) by (subst for_of.simps) simp
    moreover have "\<forall>k<N. k \<noteq> i \<longrightarrow> lpos b st' k = lpos b st k" by (simp add: lpos_def st'(3))
    ultimately show ?thesis using st'(2,4) unfolding rb by auto
  qed
next
  case (Suc n)
  note inv = Suc.prems(1)
  have i: "i < length (iteratorIndexPositions st)" using inv assms(2)
    by (simp add: tee_inv_def tee_wf_def)
  have lt: "lpos b st i < length S" using Suc.hyps(2) by simp
  have nd: "\<not> done_flags st ! i" using inv_done_lpos[OF inv assms(2)] lt by auto
  let ?x = "S ! lpos b st i"
  from next_inv_yield[OF inv assms(2) nd lt] obtain st1 b1 where
    st1: "cursor_next i st = (Inr (IterResult ?x False), st1)" "tee_inv S N b1 st1"
      "\<And>k. k < N \<Longrightarrow> lpos b1 st1 k = lpos b st k + (if k = i then 1 else 0)"
    by blast
  have dr: "drop (lpos b st i) S = ?x # drop (lpos b1 st1 i) S"
    using lt st1(3)[OF assms(2)] by (simp add: Cons_nth_drop_Suc)
  obtain r calls' where bd: "body ?x vars calls = (r, calls')" by (cases "body ?x vars calls")
  show ?case
  proof (cases r)
    case (Inl e)
    have "for_of i body vars st calls = (Inl e, snd (cursor_return i JUndefined st1), calls')"
      using i st1(1) bd Inl by (subst for_of.simps) simp
    moreover have "0 < pulls st1"
      using inv_pulls_pos[OF st1(2) assms(2)] st1(3)[OF assms(2)] by simp
    ultimately show ?thesis unfolding dr using bd Inl by (simp add: cursor_return_def)
  next
    case (Inr vars')
    have fo: "for_of i body vars st calls = for_of i body vars' st1 calls'"
      using i st1(1) bd Inr by (subst for_of.simps) simp
    have n: "n = length S - lpos b1 st1 i" using Suc.hyps(2) st1(3)[OF assms(2)] by simp
    from Suc.hyps(1)[OF n st1(2) assms(2), of vars' calls'] obtain st' where
      IH: "for_of i body vars' st1 calls' =
            (fst (run_body body (drop (lpos b1 st1 i) S) vars' calls'), st',
             snd (run_body body (drop (lpos b1 st1 i) S) vars' calls'))"
          "(case fst (run_body body (drop (lpos b1 st1 i) S) vars' calls') of
             Inl e \<Rightarrow> 0 < pulls st'
           | Inr v \<Rightarrow> pulls st' = length S + 1 \<and>
               (\<exists>b'. tee_inv S N b' st' \<and> (\<forall>k<N. k \<noteq> i \<longrightarrow> lpos b' st' k = lpos b1 st1 k)))"
      by blast
    have rb: "run_body body (drop (lpos b st i) S) vars calls
        = run_body body (drop (lpos b1 st1 i) S) vars' calls'"
      unfolding dr using bd Inr by simp
    have "\<And>b' k. k < N \<Longrightarrow> k \<noteq> i \<Longrightarrow> lpos b' st' k = lpos b1 st1 k \<longleftrightarrow> lpos b' st' k = lpos b st k"
      using st1(3) by simp
    then show ?thesis using IH unfolding fo rb
      by (auto split: sum.splits)
  qed
qed

text \<open>
  Claim C9, as amended.  \<open>createTeeIterators\<close> throws at once, creating no iterator state
  and hence pulling nothing, when it is not called with exactly two arguments, when the
  source has no iteration capability, or when the count is not a number.  Otherwise the
  count is rounded down with \<open>Math.floor\<close>: a count \<open>c\<close> with \<open>0 \<le> c < 2^32\<close> gives
  \<open>\<lfloor>c\<rfloor>\<close> cursors over a fresh state whose source has not been pulled, and for such counts
  rounding down is truncation toward zero.
\<close>

theorem split_argument_checks:
  "(length args \<noteq> 2 \<longrightarrow>
      createTeeIterators args =
        Inl (JErr ''Error'' (''Expected 2 arguments but recieved: '' @ dec_string (length args)))) \<and>
   (\<not> has_iterator bad \<longrightarrow>
      (\<exists>name msg. createTeeIterators [bad, n] = Inl (JErr name msg))) \<and>
   (has_iterator src \<and> typeof count \<noteq> ''number'' \<longrightarrow>
      createTeeIterators [src, count] = Inl (JErr ''Error'' ''Expected Arg 2 to be an integer'')) \<and>
   (has_iterator src \<and> 0 \<le> c \<and> c < 2 ^ 32 \<longrightarrow>
      createTeeIterators [src, JNum c]
        = Inr ([0..<nat \<lfloor>c\<rfloor>], initial_state (iterate src) (nat \<lfloor>c\<rfloor>)) \<and>
      pulls (initial_state (iterate src) (nat \<lfloor>c\<rfloor>)) = 0 \<and>
      \<lfloor>c\<rfloor> = truncate_toward_zero c)"
proof (intro conjI impI)
  assume "length args \<noteq> 2"
  then show "createTeeIterators args =
        Inl (JErr ''Error'' (''Expected 2 arguments but recieved: '' @ dec_string (length args)))"
    by (simp add: createTeeIterators_def)
next
  assume "\<not> has_iterator bad"
  then show "\<exists>name msg. createTeeIterators [bad, n] = Inl (JErr name msg)"
    by (simp add: createTeeIterators_def)
next
  assume h: "has_iterator src \<and> typeof count \<noteq> ''number''"
  then have "src \<noteq> JUndefined" "src \<noteq> JNull" by auto
  then show "createTeeIterators [src, count] = Inl (JErr ''Error'' ''Expected Arg 2 to be an integer'')"
    using h by (cases count) (simp_all add: createTeeIterators_def)
next
  assume h: "has_iterator src \<and> 0 \<le> c \<and> c < 2 ^ 32"
  then have s: "src \<noteq> JUndefined" "src \<noteq> JNull" by auto
  have f0: "0 \<le> \<lfloor>c\<rfloor>" using h by simp
  have "\<lfloor>c\<rfloor> < 2 ^ 32" using h by (simp add: floor_less_iff)
  then have f1: "\<not> 2 ^ 32 \<le> \<lfloor>c\<rfloor>" by simp
  show "createTeeIterators [src, JNum c]
        = Inr ([0..<nat \<lfloor>c\<rfloor>], initial_state (iterate src) (nat \<lfloor>c\<rfloor>))"
    using h s f0 f1 by (simp add: createTeeIterators_def Let_def del: power_numeral)
  show "pulls (initial_state (iterate src) (nat \<lfloor>c\<rfloor>)) = 0" by (simp add: initial_state_def)
  show "\<lfloor>c\<rfloor> = truncate_toward_zero c" using h by (simp add: truncate_toward_zero_def)
qed

text \<open>
  The calls of the test suite: a missing argument, a source that is a plain object, a
  count given as a string; and the fractional count \<open>2.5\<close>.
\<close>

theorem split_argument_checks_witness:
  "createTeeIterators [JArr [JNum 1, JNum 2, JNum 3]]
     = Inl (JErr ''Error'' ''Expected 2 arguments but recieved: 1'') \<and>
   (\<exists>name msg. createTeeIterators [JObj [], JNum 2] = Inl (JErr name msg)) \<and>
   createTeeIterators [JArr [JNum 1, JNum 2, JNum 3], JStr ''2'']
     = Inl (JErr ''Error'' ''Expected Arg 2 to be an integer'') \<and>
   createTeeIterators [JArr [JNum 1, JNum 2, JNum 3], JNum (5 / 2)]
     = Inr ([0..<2], initial_state (map Yield [JNum 1, JNum 2, JNum 3]) 2) \<and>
   pulls (initial_state (map Yield [JNum 1, JNum 2, JNum 3]) 2) = 0 \<and>
   \<lfloor>5 / 2 :: real\<rfloor> = truncate_toward_zero (5 / 2)"
  using split_argument_checks[where args = "[JArr [JNum 1, JNum 2, JNum 3]]" and bad = "JObj []" and n = "JNum 2"
          and src = "JArr [JNum 1, JNum 2, JNum 3]" and count = "JStr ''2''" and c = "5 / 2"]
  by (simp add: dec_string.simps)

text \<open>
  Claim C9 as stated fails for a negative fractional count: \<open>Math.floor(-0.5)\<close> is \<open>-1\<close>, and
  the array constructor rejects it, whereas truncation toward zero would give 0 cursors.
\<close>

theorem negative_fraction_counterexample:
  "createTeeIterators [JArr [JNum 1, JNum 2, JNum 3], JNum (- 1 / 2)]
     = Inl (JErr ''RangeError'' ''Invalid array length'') \<and>
   truncate_toward_zero (- 1 / 2) = 0"
  by (simp add: createTeeIterators_def truncate_toward_zero_def ceiling_def)

lemma typeof_function: "typeof v = ''function'' \<longleftrightarrow> (\<exists>k. v = JFun k)"
  by (cases v) simp_all

lemma validate_None: "validate_consumers cs = None \<longleftrightarrow> (\<forall>c\<in>set cs. \<not> malformed c)"
  by (induction cs) (auto simp: malformed_def)

lemma validate_Some:
  "validate_consumers cs = Some e \<Longrightarrow> \<exists>msg. e = JErr ''TypeError'' msg"
  by (induction cs) (auto split: if_splits)

lemma consumers_loop_spec:
  assumes "tee_inv S N b st" and "idx + length fns \<le> N"
    and "\<forall>k<N. idx \<le> k \<longrightarrow> lpos b st k = 0"
  shows "\<exists>st'. consumers_loop fenv fns idx out st calls =
            (fst (consumers_spec fenv fns idx out S calls), st',
             snd (consumers_spec fenv fns idx out S calls)) \<and>
          (case fst (consumers_spec fenv fns idx out S calls) of
             Inl e \<Rightarrow> 0 < pulls st'
           | Inr v \<Rightarrow> fns \<noteq> [] \<longrightarrow> pulls st' = length S + 1)"
  using assms
proof (induction fns arbitrary: idx out st calls b)
  case Nil
  then show ?case by simp
next
  case (Cons fn rest)
  have i: "idx < N" using Cons.prems(2) by simp
  have l0: "lpos b st idx = 0" using Cons.prems(3) i by simp
  let ?rb = "run_body (loop_body fenv fn) S (initial_vars fn) calls"
  from for_of_run_body[OF Cons.prems(1) i, of "loop_body fenv fn" "initial_vars fn" calls]
  obtain st1 where
    fo: "for_of idx (loop_body fenv fn) (initial_vars fn) st calls = (fst ?rb, st1, snd ?rb)"
    and post: "case fst ?rb of
             Inl e \<Rightarrow> 0 < pulls st1
           | Inr v \<Rightarrow> pulls st1 = length S + 1 \<and>
               (\<exists>b'. tee_inv S N b' st1 \<and> (\<forall>k<N. k \<noteq> idx \<longrightarrow> lpos b' st1 k = lpos b st k))"
    unfolding l0 by auto
  show ?case
  proof (cases "fst ?rb")
    case (Inl e)
    then show ?thesis using fo post by (simp add: split_beta)
  next
    case (Inr vars)
    from post Inr obtain b1 where p1: "pulls st1 = length S + 1"
      and inv1: "tee_inv S N b1 st1"
      and l1: "\<forall>k<N. k \<noteq> idx \<longrightarrow> lpos b1 st1 k = lpos b st k"
      by auto
    have z1: "\<forall>k<N. idx + 1 \<le> k \<longrightarrow> lpos b1 st1 k = 0" using l1 Cons.prems(3) by simp
    have le1: "idx + 1 + length rest \<le> N" using Cons.prems(2) by simp
    from Cons.IH[OF inv1 le1 z1, of "store_result fn vars idx out" "snd ?rb"]
    obtain st' where
      IH: "consumers_loop fenv rest (idx + 1) (store_result fn vars idx out) st1 (snd ?rb) =
            (fst (consumers_spec fenv rest (idx + 1) (store_result fn vars idx out) S (snd ?rb)), st',
             snd (consumers_spec fenv rest (idx + 1) (store_result fn vars idx out) S (snd ?rb)))"
        "case fst (consumers_spec fenv rest (idx + 1) (store_result fn vars idx out) S (snd ?rb)) of
             Inl e \<Rightarrow> 0 < pulls st'
           | Inr v \<Rightarrow> rest \<noteq> [] \<longrightarrow> pulls st' = length S + 1"
      by blast
    have sp: "consumers_spec fenv (fn # rest) idx out S calls
        = consumers_spec fenv rest (idx + 1) (store_result fn vars idx out) S (snd ?rb)"
      using Inr by (simp add: split_beta)
    have lp: "consumers_loop fenv (fn # rest) idx out st calls
        = consumers_loop fenv rest (idx + 1) (store_result fn vars idx out) st1 (snd ?rb)"
      using fo Inr by simp
    show ?thesis
    proof (cases rest)
      case Nil
      then show ?thesis using lp sp p1 by simp
    next
      case (Cons a list)
      then show ?thesis using IH unfolding lp sp by (auto split: sum.splits)
    qed
  qed
qed

lemma teeConsumers_spec:
  assumes "consumers \<noteq> []" and "\<forall>c\<in>set consumers. \<not> malformed c"
    and "length consumers < 2 ^ 32"
  shows "\<exists>p. teeConsumers fenv (JArr S) consumers =
            (case fst (consumers_spec fenv consumers 0 (replicate (length consumers) (JNum 0)) S []) of
               Inl e \<Rightarrow> Inl e | Inr out \<Rightarrow> Inr (JArr out),
             p,
             snd (consumers_spec fenv consumers 0 (replicate (length consumers) (JNum 0)) S [])) \<and>
          (case fst (consumers_spec fenv consumers 0 (replicate (length consumers) (JNum 0)) S []) of
             Inl e \<Rightarrow> 0 < p | Inr out \<Rightarrow> p = length S + 1)"
proof -
  let ?N = "length consumers"
  let ?st0 = "initial_state (map Yield S) ?N"
  let ?out = "replicate ?N (JNum 0)"
  have v: "validate_consumers consumers = None" using assms(2) by (simp add: validate_None)
  have c: "createTeeIterators [JArr S, JNum (real ?N)] = Inr ([0..<?N], ?st0)"
    using create_ok[of "JArr S" ?N] assms(3) by simp
  from consumers_loop_spec[OF initial_inv, of 0 consumers ?N S fenv ?out "[]"]
  obtain st' where
    lp: "consumers_loop fenv consumers 0 ?out ?st0 [] =
            (fst (consumers_spec fenv consumers 0 ?out S []), st',
             snd (consumers_spec fenv consumers 0 ?out S []))"
    and post: "case fst (consumers_spec fenv consumers 0 ?out S []) of
             Inl e \<Rightarrow> 0 < pulls st'
           | Inr v \<Rightarrow> consumers \<noteq> [] \<longrightarrow> pulls st' = length S + 1"
    by (auto simp: initial_lpos)
  show ?thesis
    using assms(1) v c lp post
    by (auto simp: teeConsumers_def split: sum.splits)
qed

lemma fenv_total: "never_throws fenv f \<Longrightarrow> fenv f args = Inr (result_of fenv f args)"
  unfolding never_throws_def result_of_def
  by (metis sum.case(2))

lemma run_body_map:
  assumes "get_prop c ''kind'' = JStr ''map''" and "get_prop c ''fn'' = JFun f"
    and "never_throws fenv f"
  shows "run_body (loop_body fenv c) xs vars calls =
     (Inr (vars\<lparr>mapResult := mapResult vars @ map_from fenv f (elementIdx vars) xs,
                elementIdx := elementIdx vars + length xs\<rparr>),
      calls @ calls_from f (elementIdx vars) xs)"
proof (induction xs arbitrary: vars calls)
  case Nil
  show ?case by simp
next
  case (Cons x xs)
  have "loop_body fenv c x vars calls =
      (Inr (vars\<lparr>mapResult := mapResult vars @ [result_of fenv f [x, JNum (real (elementIdx vars))]],
                 elementIdx := elementIdx vars + 1\<rparr>),
       calls @ [(f, [x, JNum (real (elementIdx vars))])])"
    using assms by (simp add: loop_body_def call_fn_def fenv_total Let_def)
  then show ?case by (simp add: Cons.IH)
qed

lemma run_body_forEach:
  assumes "get_prop c ''kind'' = JStr ''forEach''" and "get_prop c ''fn'' = JFun f"
    and "never_throws fenv f"
  shows "run_body (loop_body fenv c) xs vars calls =
     (Inr (vars\<lparr>elementIdx := elementIdx vars + length xs\<rparr>),
      calls @ calls_from f (elementIdx vars) xs)"
proof (induction xs arbitrary: vars calls)
  case Nil
  show ?case by simp
next
  case (Cons x xs)
  have "loop_body fenv c x vars calls =
      (Inr (vars\<lparr>elementIdx := elementIdx vars + 1\<rparr>),
       calls @ [(f, [x, JNum (real (elementIdx vars))])])"
    using assms by (simp add: loop_body_def call_fn_def fenv_total Let_def)
  then show ?case by (simp add: Cons.IH)
qed

lemma run_body_filter:
  assumes "get_prop c ''kind'' = JStr ''filter''" and "get_prop c ''fn'' = JFun f"
    and "never_throws fenv f"
  shows "run_body (loop_body fenv c) xs vars calls =
     (Inr (vars\<lparr>filterResult := filterResult vars @ filter_from fenv f (elementIdx vars) xs,
                elementIdx := elementIdx vars + length xs\<rparr>),
      calls @ calls_from f (elementIdx vars) xs)"
proof (induction xs arbitrary: vars calls)
  case Nil
  show ?case by simp
next
  case (Cons x xs)
  have "loop_body fenv c x vars calls =
      (Inr (vars\<lparr>filterResult :=
                   (if truthy (result_of fenv f [x, JNum (real (elementIdx vars))])
                    then filterResult vars @ [x] else filterResult vars),
                 elementIdx := elementIdx vars + 1\<rparr>),
       calls @ [(f, [x, JNum (real (elementIdx vars))])])"
    using assms by (simp add: loop_body_def call_fn_def fenv_total Let_def)
  then show ?case by (simp add: Cons.IH)
qed

lemma run_body_reduce_later:
  assumes "get_prop c ''kind'' = JStr ''reduce''" and "get_prop c ''fn'' = JFun f"
    and "never_throws fenv f"
  shows "0 < elementIdx vars \<Longrightarrow>
     run_body (loop_body fenv c) xs vars calls =
     (Inr (vars\<lparr>reduceResult := reduce_from fenv f (reduceResult vars) (elementIdx vars) xs,
                elementIdx := elementIdx vars + length xs\<rparr>),
      calls @ reduce_calls fenv f (reduceResult vars) (elementIdx vars) xs)"
proof (induction xs arbitrary: vars calls)
  case Nil
  show ?case by simp
next
  case (Cons x xs)
  have "loop_body fenv c x vars calls =
      (Inr (vars\<lparr>reduceResult := result_of fenv f [reduceResult vars, x, JNum (real (elementIdx vars))],
                 elementIdx := elementIdx vars + 1\<rparr>),
       calls @ [(f, [reduceResult vars, x, JNum (real (elementIdx vars))])])"
    using assms Cons.prems by (simp add: loop_body_def call_fn_def fenv_total Let_def)
  then show ?case by (simp add: Cons.IH)
qed

lemma run_body_reduce_seeded:
  assumes "get_prop c ''kind'' = JStr ''reduce''" and "get_prop c ''fn'' = JFun f"
    and "never_throws fenv f"
    and "elementIdx vars = 0" and "reduceResult vars \<noteq> JUndefined"
  shows "run_body (loop_body fenv c) xs vars calls =
     (Inr (vars\<lparr>reduceResult := reduce_from fenv f (reduceResult vars) 0 xs,
                elementIdx := length xs\<rparr>),
      calls @ reduce_calls fenv f (reduceResult vars) 0 xs)"
proof (cases xs)
  case Nil
  then show ?thesis using assms(4) by simp
next
  case (Cons x xs')
  have "loop_body fenv c x vars calls =
      (Inr (vars\<lparr>reduceResult := result_of fenv f [reduceResult vars, x, JNum 0],
                 elementIdx := 1\<rparr>),
       calls @ [(f, [reduceResult vars, x, JNum 0])])"
    using assms by (simp add: loop_body_def call_fn_def fenv_total Let_def)
  then show ?thesis
    unfolding Cons using run_body_reduce_later[OF assms(1-3)] by simp
qed

lemma run_body_reduce_unseeded:
  assumes "get_prop c ''kind'' = JStr ''reduce''" and "get_prop c ''fn'' = JFun f"
    and "never_throws fenv f"
    and "elementIdx vars = 0" and "reduceResult vars = JUndefined"
  shows "run_body (loop_body fenv c) (x # xs) vars calls =
     (Inr (vars\<lparr>reduceResult := reduce_from fenv f x 1 xs, elementIdx := length xs + 1\<rparr>),
      calls @ reduce_calls fenv f x 1 xs)"
proof -
  have "loop_body fenv c x vars calls = (Inr (vars\<lparr>reduceResult := x, elementIdx := 1\<rparr>), calls)"
    using assms by (simp add: loop_body_def Let_def)
  then show ?thesis using run_body_reduce_later[OF assms(1-3)] by simp
qed

lemma consume_good:
  assumes "\<not> malformed c" and "known_kind c" and "never_throws fenv (fn_of c)"
  shows "\<exists>vars. run_body (loop_body fenv c) S (initial_vars c) calls
                  = (Inr vars, calls @ expected_calls fenv S c) \<and>
                store_result c vars idx out = out[idx := expected_result fenv S c]"
proof -
  from assms(1) obtain f where f: "get_prop c ''fn'' = JFun f"
    by (auto simp: malformed_def typeof_function)
  then have fo: "fn_of c = f" by (simp add: fn_of_def)
  note nt = assms(3)[unfolded fo]
  consider (m) "get_prop c ''kind'' = JStr ''map''" | (fl) "get_prop c ''kind'' = JStr ''filter''"
    | (r) "get_prop c ''kind'' = JStr ''reduce''" | (fe) "get_prop c ''kind'' = JStr ''forEach''"
    using assms(2) by (auto simp: known_kind_def)
  then show ?thesis
  proof cases
    case m
    show ?thesis
      using run_body_map[OF m f nt, of S "initial_vars c" calls] m
      by (simp add: initial_vars_def store_result_def expected_result_def expected_calls_def fo)
  next
    case fl
    show ?thesis
      using run_body_filter[OF fl f nt, of S "initial_vars c" calls] fl
      by (simp add: initial_vars_def store_result_def expected_result_def expected_calls_def fo)
  next
    case fe
    show ?thesis
      using run_body_forEach[OF fe f nt, of S "initial_vars c" calls] fe
      by (simp add: initial_vars_def store_result_def expected_result_def expected_calls_def fo)
  next
    case r
    show ?thesis
    proof (cases "get_prop c ''initVal'' = JUndefined")
      case False
      then show ?thesis
        using run_body_reduce_seeded[OF r f nt, of "initial_vars c" S calls] r
        by (simp add: initial_vars_def store_result_def expected_result_def expected_calls_def fo)
    next
      case True
      show ?thesis
      proof (cases S)
        case Nil
        then show ?thesis using True r
          by (simp add: initial_vars_def store_result_def expected_result_def expected_calls_def fo)
      next
        case (Cons x xs)
        then show ?thesis
          using run_body_reduce_unseeded[OF r f nt, of "initial_vars c" x xs calls] r True
          by (simp add: initial_vars_def store_result_def expected_result_def expected_calls_def fo)
      qed
    qed
  qed
qed

lemma consumers_spec_good:
  assumes "\<forall>c\<in>set fns. \<not> malformed c \<and> known_kind c \<and> never_throws fenv (fn_of c)"
    and "idx + length fns \<le> length out"
  shows "consumers_spec fenv fns idx out S calls =
     (Inr (take idx out @ map (expected_result fenv S) fns @ drop (idx + length fns) out),
      calls @ concat (map (expected_calls fenv S) fns))"
  using assms
proof (induction fns arbitrary: idx out calls)
  case Nil
  then show ?case by simp
next
  case (Cons c rest)
  have g: "\<not> malformed c" "known_kind c" "never_throws fenv (fn_of c)" using Cons.prems(1) by auto
  from consume_good[OF g, of S calls idx out] obtain vars where
    rb: "run_body (loop_body fenv c) S (initial_vars c) calls
           = (Inr vars, calls @ expected_calls fenv S c)"
    and sr: "store_result c vars idx out = out[idx := expected_result fenv S c]"
    by blast
  let ?out1 = "out[idx := expected_result fenv S c]"
  have r: "\<forall>c\<in>set rest. \<not> malformed c \<and> known_kind c \<and> never_throws fenv (fn_of c)"
    using Cons.prems(1) by simp
  have l: "idx + 1 + length rest \<le> length ?out1" using Cons.prems(2) by simp
  have i: "idx < length out" using Cons.prems(2) by simp
  have t: "take (idx + 1) ?out1 = take idx out @ [expected_result fenv S c]"
    using i by (simp add: take_Suc_conv_app_nth)
  have d: "drop (idx + 1 + length rest) ?out1 = drop (idx + length (c # rest)) out"
    by simp
  show ?case
    using Cons.IH[OF r l, of "calls @ expected_calls fenv S c"] rb sr t d by simp
qed

lemma teeConsumers_good:
  assumes "consumers \<noteq> []" and "length consumers < 2 ^ 32"
    and "\<forall>c\<in>set consumers. \<not> malformed c \<and> known_kind c \<and> never_throws fenv (fn_of c)"
  shows "teeConsumers fenv (JArr S) consumers =
           (Inr (JArr (map (expected_result fenv S) consumers)), length S + 1,
            concat (map (expected_calls fenv S) consumers))"
proof -
  have m: "\<forall>c\<in>set consumers. \<not> malformed c" using assms(3) by simp
  have sp: "consumers_spec fenv consumers 0 (replicate (length consumers) (JNum 0)) S [] =
      (Inr (map (expected_result fenv S) consumers),
       concat (map (expected_calls fenv S) consumers))"
    using consumers_spec_good[OF assms(3), of 0 "replicate (length consumers) (JNum 0)" S "[]"]
    by simp
  from teeConsumers_spec[OF assms(1) m assms(2), of fenv S] show ?thesis
    unfolding sp by auto
qed

text \<open>
  Claim C7.  For descriptors that pass validation, have one of the four kinds and whose
  callbacks return, the runner returns one result per descriptor, in descriptor order:
  \<open>map\<close> the collected \<open>fn(element, index)\<close>, \<open>filter\<close> the elements whose predicate is
  truthy, \<open>reduce\<close> the final accumulator, \<open>forEach\<close> \<open>undefined\<close>.  The source is pulled
  \<open>|S| + 1\<close> times in all, and the callbacks are called descriptor by descriptor.
\<close>

theorem consumer_results_in_descriptor_order:
  assumes "consumers \<noteq> []" and "length consumers < 2 ^ 32"
    and "\<forall>c\<in>set consumers. \<not> malformed c \<and> known_kind c \<and> never_throws fenv (fn_of c)"
  shows "teeConsumers fenv (JArr S) consumers =
           (Inr (JArr (map (expected_result fenv S) consumers)), length S + 1,
            concat (map (expected_calls fenv S) consumers))"
  using assms by (rule teeConsumers_good)

lemmas example_eval = example_fns_def arg_def num_op_def js_rem_def result_of_def fn_of_def
  expected_result_def expected_calls_def malformed_def known_kind_def never_throws_def

text \<open>
  The example of the specification: \<open>map(x*2)\<close>, \<open>filter(x%2==0)\<close>, \<open>reduce(sum, init 0)\<close> and
  \<open>forEach(noop)\<close> over \<open>[1,2,3,4]\<close> give \<open>[[2,4,6,8], [2,4], 10, undefined]\<close>.
\<close>

theorem consumer_results_in_descriptor_order_witness:
  "fst (teeConsumers example_fns (JArr [JNum 1, JNum 2, JNum 3, JNum 4])
          [JObj [(''kind'', JStr ''map''), (''fn'', JFun 0)],
           JObj [(''kind'', JStr ''filter''), (''fn'', JFun 1)],
           JObj [(''kind'', JStr ''reduce''), (''fn'', JFun 2), (''initVal'', JNum 0)],
           JObj [(''kind'', JStr ''forEach''), (''fn'', JFun 3)]])
     = Inr (JArr [JArr [JNum 2, JNum 4, JNum 6, JNum 8], JArr [JNum 2, JNum 4], JNum 10, JUndefined])"
proof -
  let ?cs = "[JObj [(''kind'', JStr ''map''), (''fn'', JFun 0)],
           JObj [(''kind'', JStr ''filter''), (''fn'', JFun 1)],
           JObj [(''kind'', JStr ''reduce''), (''fn'', JFun 2), (''initVal'', JNum 0)],
           JObj [(''kind'', JStr ''forEach''), (''fn'', JFun 3)]]"
  have h: "?cs \<noteq> []" "length ?cs < 2 ^ 32"
    "\<forall>c\<in>set ?cs. \<not> malformed c \<and> known_kind c \<and> never_throws example_fns (fn_of c)"
    by (simp_all add: example_eval)
  have e: "map (expected_result example_fns [JNum 1, JNum 2, JNum 3, JNum 4]) ?cs
      = [JArr [JNum 2, JNum 4, JNum 6, JNum 8], JArr [JNum 2, JNum 4], JNum 10, JUndefined]"
    by (simp add: example_eval)
  show ?thesis
    using consumer_results_in_descriptor_order[OF h, of "[JNum 1, JNum 2, JNum 3, JNum 4]"]
    unfolding e by simp
qed







lemma typeof_string: "typeof v = ''string'' \<longleftrightarrow> (\<exists>k. v = JStr k)"
  by (cases v) simp_all

lemma consumers_spec_append:
  "consumers_spec fenv (xs @ ys) idx out S calls =
     (case consumers_spec fenv xs idx out S calls of
        (Inl e, calls') \<Rightarrow> (Inl e, calls')
      | (Inr out', calls') \<Rightarrow> consumers_spec fenv ys (idx + length xs) out' S calls')"
  by (induction xs arbitrary: idx out calls) (auto split: prod.splits sum.splits)

lemma unknown_kind_body:
  assumes "get_prop u ''kind'' = JStr k" and "\<not> known_kind u"
  shows "loop_body fenv u x vars calls
           = (Inl (JErr ''Error'' (''Unknown consumer kind: '' @ k)), calls)"
proof -
  from assms have "k \<noteq> ''forEach''" "k \<noteq> ''map''" "k \<noteq> ''reduce''" "k \<noteq> ''filter''"
    by (auto simp: known_kind_def)
  then show ?thesis using assms(1) by (simp add: loop_body_def)
qed

lemma unknown_kind_late:
  assumes "\<not> malformed u" and "\<not> known_kind u"
    and "\<forall>c\<in>set (before @ after). \<not> malformed c"
    and "\<forall>c\<in>set before. known_kind c \<and> never_throws fenv (fn_of c)"
    and "length (before @ u # after) < 2 ^ 32" and "S \<noteq> []"
  shows "\<exists>p k. get_prop u ''kind'' = JStr k \<and>
           teeConsumers fenv (JArr S) (before @ u # after) =
             (Inl (JErr ''Error'' (''Unknown consumer kind: '' @ k)), p,
              concat (map (expected_calls fenv S) before)) \<and>
           0 < p"
proof -
  let ?cs = "before @ u # after"
  let ?out = "replicate (length ?cs) (JNum 0)"
  obtain x xs where S: "S = x # xs" using assms(6) by (cases S) auto
  have g: "\<forall>c\<in>set before. \<not> malformed c \<and> known_kind c \<and> never_throws fenv (fn_of c)"
    using assms(3,4) by simp
  have b: "consumers_spec fenv before 0 ?out S [] =
      (Inr (take 0 ?out @ map (expected_result fenv S) before @ drop (0 + length before) ?out),
       [] @ concat (map (expected_calls fenv S) before))"
    by (rule consumers_spec_good[OF g]) simp
  from assms(1) obtain k where k: "get_prop u ''kind'' = JStr k"
    by (auto simp: malformed_def typeof_string)
  note lb = unknown_kind_body[OF k assms(2)]
  have sp: "consumers_spec fenv ?cs 0 ?out S [] =
      (Inl (JErr ''Error'' (''Unknown consumer kind: '' @ k)),
       concat (map (expected_calls fenv S) before))"
    unfolding consumers_spec_append b by (simp add: S lb)
  have m: "\<forall>c\<in>set ?cs. \<not> malformed c" using assms(1,3) by auto
  from teeConsumers_spec[OF _ m assms(5), of fenv S] k show ?thesis
    unfolding sp by auto
qed

lemma malformed_rejected:
  assumes "\<exists>c\<in>set consumers. malformed c"
  shows "\<exists>msg. teeConsumers fenv this consumers = (Inl (JErr ''TypeError'' msg), 0, [])"
proof -
  have ne: "consumers \<noteq> []" using assms by auto
  have "validate_consumers consumers \<noteq> None" using assms by (simp add: validate_None)
  then obtain e where "validate_consumers consumers = Some e" by auto
  moreover from validate_Some[OF this] obtain msg where "e = JErr ''TypeError'' msg" by blast
  ultimately show ?thesis using ne by (cases this) (simp_all add: teeConsumers_def)
qed

text \<open>
  Claim C5, as amended.  Called on an array without descriptors, the runner throws a
  generic \<open>Error\<close>; when some descriptor is not an object with a string \<open>kind\<close> and a
  function-valued \<open>fn\<close>, it throws a \<open>TypeError\<close>; in both cases before the source is pulled
  and before any callback is called.  A well-formed descriptor whose \<open>kind\<close> is none of the
  four passes validation: over a non-empty source the runner throws a generic \<open>Error\<close>
  naming the kind only when that descriptor meets its first element, after the source has
  been pulled and the descriptors before it have processed the whole source.
\<close>

theorem descriptor_validation:
  "teeConsumers fenv (JArr S) [] =
     (Inl (JErr ''Error'' ''At least one consumer must be provided''), 0, []) \<and>
   ((\<exists>c\<in>set consumers. malformed c) \<longrightarrow>
      (\<exists>msg. teeConsumers fenv this consumers = (Inl (JErr ''TypeError'' msg), 0, []))) \<and>
   (\<not> malformed u \<and> \<not> known_kind u \<and> (\<forall>c\<in>set (before @ after). \<not> malformed c) \<and>
    (\<forall>c\<in>set before. known_kind c \<and> never_throws fenv (fn_of c)) \<and>
    length (before @ u # after) < 2 ^ 32 \<and> T \<noteq> [] \<longrightarrow>
      (\<exists>p k. get_prop u ''kind'' = JStr k \<and>
         teeConsumers fenv (JArr T) (before @ u # after) =
           (Inl (JErr ''Error'' (''Unknown consumer kind: '' @ k)), p,
            concat (map (expected_calls fenv T) before)) \<and>
         0 < p))"
proof (intro conjI impI)
  show "teeConsumers fenv (JArr S) [] =
     (Inl (JErr ''Error'' ''At least one consumer must be provided''), 0, [])"
    by (simp add: teeConsumers_def)
next
  assume "\<exists>c\<in>set consumers. malformed c"
  then show "\<exists>msg. teeConsumers fenv this consumers = (Inl (JErr ''TypeError'' msg), 0, [])"
    by (rule malformed_rejected)
next
  assume h: "\<not> malformed u \<and> \<not> known_kind u \<and> (\<forall>c\<in>set (before @ after). \<not> malformed c) \<and>
    (\<forall>c\<in>set before. known_kind c \<and> never_throws fenv (fn_of c)) \<and>
    length (before @ u # after) < 2 ^ 32 \<and> T \<noteq> []"
  show "\<exists>p k. get_prop u ''kind'' = JStr k \<and>
         teeConsumers fenv (JArr T) (before @ u # after) =
           (Inl (JErr ''Error'' (''Unknown consumer kind: '' @ k)), p,
            concat (map (expected_calls fenv T) before)) \<and>
         0 < p"
    by (rule unknown_kind_late) (use h in blast)+
qed

text \<open>
  The calls of the test suite on \<open>[1,2,3]\<close>: no descriptor, the descriptor \<open>null\<close>; and an
  unrecognised kind after a \<open>map\<close> descriptor.
\<close>

theorem descriptor_validation_witness:
  "teeConsumers example_fns (JArr [JNum 1, JNum 2, JNum 3]) [] =
     (Inl (JErr ''Error'' ''At least one consumer must be provided''), 0, []) \<and>
   (\<exists>msg. teeConsumers example_fns (JArr [JNum 1, JNum 2, JNum 3]) [JNull]
            = (Inl (JErr ''TypeError'' msg), 0, [])) \<and>
   (\<exists>p k. get_prop (JObj [(''kind'', JStr ''bogus''), (''fn'', JFun 0)]) ''kind'' = JStr k \<and>
      teeConsumers example_fns (JArr [JNum 1, JNum 2, JNum 3])
        ([JObj [(''kind'', JStr ''map''), (''fn'', JFun 0)]]
           @ JObj [(''kind'', JStr ''bogus''), (''fn'', JFun 0)] # []) =
        (Inl (JErr ''Error'' (''Unknown consumer kind: '' @ k)), p,
         concat (map (expected_calls example_fns [JNum 1, JNum 2, JNum 3])
                   [JObj [(''kind'', JStr ''map''), (''fn'', JFun 0)]])) \<and>
      0 < p)"
proof -
  let ?m = "JObj [(''kind'', JStr ''map''), (''fn'', JFun 0)]"
  let ?u = "JObj [(''kind'', JStr ''bogus''), (''fn'', JFun 0)]"
  note t = descriptor_validation[where fenv = example_fns and S = "[JNum 1, JNum 2, JNum 3]"
      and consumers = "[JNull]" and this = "JArr [JNum 1, JNum 2, JNum 3]"
      and u = ?u and before = "[?m]" and after = "[]" and T = "[JNum 1, JNum 2, JNum 3]"]
  have h1: "\<exists>c\<in>set [JNull]. malformed c" by (simp add: malformed_def)
  have h2: "\<not> malformed ?u \<and> \<not> known_kind ?u \<and> (\<forall>c\<in>set ([?m] @ []). \<not> malformed c) \<and>
    (\<forall>c\<in>set [?m]. known_kind c \<and> never_throws example_fns (fn_of c)) \<and>
    length ([?m] @ ?u # []) < 2 ^ 32 \<and> [JNum 1, JNum 2, JNum 3] \<noteq> []"
    by (simp add: example_eval)
  from t h1 h2 show ?thesis by blast
qed

text \<open>
  Claim C5 as stated fails for an unrecognised kind.  Over an empty array nothing is
  thrown at all; over \<open>[1,2]\<close>, behind a \<open>map\<close> descriptor, the error is a generic \<open>Error\<close>
  thrown after the \<open>map\<close> callback has processed both elements.
\<close>

theorem unknown_kind_counterexample:
  "teeConsumers example_fns (JArr []) [JObj [(''kind'', JStr ''bogus''), (''fn'', JFun 0)]]
     = (Inr (JArr [JNum 0]), 1, []) \<and>
   fst (teeConsumers example_fns (JArr [JNum 1, JNum 2])
          [JObj [(''kind'', JStr ''map''), (''fn'', JFun 0)],
           JObj [(''kind'', JStr ''bogus''), (''fn'', JFun 0)]])
     = Inl (JErr ''Error'' ''Unknown consumer kind: bogus'') \<and>
   snd (snd (teeConsumers example_fns (JArr [JNum 1, JNum 2])
          [JObj [(''kind'', JStr ''map''), (''fn'', JFun 0)],
           JObj [(''kind'', JStr ''bogus''), (''fn'', JFun 0)]]))
     = [(0, [JNum 1, JNum 0]), (0, [JNum 2, JNum 1])]"
proof -
  let ?m = "JObj [(''kind'', JStr ''map''), (''fn'', JFun 0)]"
  let ?u = "JObj [(''kind'', JStr ''bogus''), (''fn'', JFun 0)]"
  have a: "teeConsumers example_fns (JArr []) [?u] = (Inr (JArr [JNum 0]), 1, [])"
    by (simp add: teeConsumers_def createTeeIterators_def tee_eval for_of.simps
          store_result_def initial_vars_def)
  have "\<exists>p k. get_prop ?u ''kind'' = JStr k \<and>
           teeConsumers example_fns (JArr [JNum 1, JNum 2]) ([?m] @ ?u # []) =
             (Inl (JErr ''Error'' (''Unknown consumer kind: '' @ k)), p,
              concat (map (expected_calls example_fns [JNum 1, JNum 2]) [?m])) \<and>
           0 < p"
    by (rule unknown_kind_late) (simp_all add: example_eval)
  then obtain p where "teeConsumers example_fns (JArr [JNum 1, JNum 2]) [?m, ?u] =
             (Inl (JErr ''Error'' ''Unknown consumer kind: bogus''), p,
              concat (map (expected_calls example_fns [JNum 1, JNum 2]) [?m]))"
    by auto
  then have b: "fst (teeConsumers example_fns (JArr [JNum 1, JNum 2]) [?m, ?u])
        = Inl (JErr ''Error'' ''Unknown consumer kind: bogus'')"
    and c: "snd (snd (teeConsumers example_fns (JArr [JNum 1, JNum 2]) [?m, ?u]))
        = [(0, [JNum 1, JNum 0]), (0, [JNum 2, JNum 1])]"
    by (simp_all add: example_eval)
  show ?thesis using a b c by blast
qed













end
